theory Spec2Isabelle
  imports
    Complex_Main
    "HOL-Library.Multiset"
    "HOL-Library.Char_ord"
    "HOL-Library.List_Lexorder"
    "HOL-Library.Product_Lexorder"
begin

section \<open>Records and their ordering\<close>

text \<open>
  \<^verbatim>\<open>struct Soldier\<close>: three text fields and an \<^verbatim>\<open>int\<close> salary. Strings are byte
  lists, compared lexicographically on unsigned bytes as \<^verbatim>\<open>std::string\<close> does; the
  salary is only ever compared, so its value is an \<open>int\<close>.
\<close>

record Soldier =
  full_name :: string
  job :: string
  unit :: string
  salary :: int

text \<open>The tuple built by \<^verbatim>\<open>std::tie(a.unit, a.full_name, a.salary)\<close>.\<close>

definition tie :: "Soldier \<Rightarrow> string \<times> string \<times> int" where
  "tie a = (unit a, full_name a, salary a)"

definition soldier_less :: "Soldier \<Rightarrow> Soldier \<Rightarrow> bool" where
  "soldier_less a b = (tie a < tie b)"

definition soldier_greater :: "Soldier \<Rightarrow> Soldier \<Rightarrow> bool" where
  "soldier_greater a b = (tie a > tie b)"

definition soldier_less_eq :: "Soldier \<Rightarrow> Soldier \<Rightarrow> bool" where
  "soldier_less_eq a b = (tie a \<le> tie b)"

definition soldier_greater_eq :: "Soldier \<Rightarrow> Soldier \<Rightarrow> bool" where
  "soldier_greater_eq a b = (tie a \<ge> tie b)"

section \<open>Sorting algorithms\<close>

text \<open>
  A range \<^verbatim>\<open>[first, last)\<close> is modelled by the list of its elements; an iterator is
  its integer offset from \<^verbatim>\<open>first\<close>, so \<^verbatim>\<open>first\<close> is 0, \<^verbatim>\<open>last\<close> is the length and
  \<^verbatim>\<open>first - 1\<close> is \<open>-1\<close> (an offset that is only ever incremented is a \<open>nat\<close>). An
  iterator one step outside the range (\<^verbatim>\<open>first - 1\<close> when a downward loop ends,
  \<^verbatim>\<open>last - 1\<close> of an empty range) is compared and never dereferenced; the model takes it
  for the offset it denotes. Every function carries, next to the sequence, the number of
  comparator calls made so far.
\<close>

definition iter_swap :: "'a list \<Rightarrow> nat \<Rightarrow> nat \<Rightarrow> 'a list" where
  "iter_swap a p q = a[p := a ! q, q := a ! p]"

subsection \<open>Insertion sort\<close>

text \<open>The inner loop \<^verbatim>\<open>for (auto j = i - 1; j >= first; --j)\<close>; it has no \<^verbatim>\<open>break\<close>.\<close>

function insertion_inner ::
  "('a \<Rightarrow> 'a \<Rightarrow> bool) \<Rightarrow> 'a \<Rightarrow> int \<Rightarrow> 'a list \<times> nat \<Rightarrow> 'a list \<times> nat" where
  "insertion_inner cmp t j (a, c) =
     (if j \<ge> 0
      then insertion_inner cmp t (j - 1)
             (if cmp t (a ! nat j) then iter_swap a (nat j) (nat (j + 1)) else a, c + 1)
      else (a, c))"
  by pat_completeness auto
termination
  by (relation "measure (\<lambda>(cmp, t, j, s). nat (j + 1))") auto

declare insertion_inner.simps [simp del]

text \<open>The outer loop \<^verbatim>\<open>for (auto i = first + 1; i < last; ++i)\<close> with \<^verbatim>\<open>t = *i\<close>.\<close>

function insertion_outer ::
  "('a \<Rightarrow> 'a \<Rightarrow> bool) \<Rightarrow> int \<Rightarrow> int \<Rightarrow> 'a list \<times> nat \<Rightarrow> 'a list \<times> nat" where
  "insertion_outer cmp lastp i (a, c) =
     (if i < lastp
      then insertion_outer cmp lastp (i + 1) (insertion_inner cmp (a ! nat i) (i - 1) (a, c))
      else (a, c))"
  by pat_completeness auto
termination
  by (relation "measure (\<lambda>(cmp, lastp, i, s). nat (lastp - i))") auto

declare insertion_outer.simps [simp del]

definition insertion_sort :: "('a \<Rightarrow> 'a \<Rightarrow> bool) \<Rightarrow> 'a list \<Rightarrow> 'a list \<times> nat" where
  "insertion_sort cmp a = insertion_outer cmp (int (length a)) 1 (a, 0)"

subsection \<open>Shaker sort\<close>

text \<open>The forward pass \<^verbatim>\<open>for (auto i = left_bound; i < right_bound; ++i)\<close>.\<close>

function shaker_forward ::
  "('a \<Rightarrow> 'a \<Rightarrow> bool) \<Rightarrow> int \<Rightarrow> int \<Rightarrow> 'a list \<times> bool \<times> nat \<Rightarrow> 'a list \<times> bool \<times> nat" where
  "shaker_forward cmp right_bound i (a, no_swaps, c) =
     (if i < right_bound
      then shaker_forward cmp right_bound (i + 1)
             (if cmp (a ! nat (i + 1)) (a ! nat i)
              then (iter_swap a (nat (i + 1)) (nat i), False, c + 1)
              else (a, no_swaps, c + 1))
      else (a, no_swaps, c))"
  by pat_completeness auto
termination
  by (relation "measure (\<lambda>(cmp, right_bound, i, s). nat (right_bound - i))") auto

declare shaker_forward.simps [simp del]

text \<open>The backward pass \<^verbatim>\<open>for (auto i = right_bound; i >= left_bound; --i)\<close>.\<close>

function shaker_backward ::
  "('a \<Rightarrow> 'a \<Rightarrow> bool) \<Rightarrow> int \<Rightarrow> int \<Rightarrow> 'a list \<times> nat \<Rightarrow> 'a list \<times> nat" where
  "shaker_backward cmp left_bound i (a, c) =
     (if i \<ge> left_bound
      then shaker_backward cmp left_bound (i - 1)
             (if cmp (a ! nat i) (a ! nat (i - 1))
              then iter_swap a (nat i) (nat (i - 1)) else a, c + 1)
      else (a, c))"
  by pat_completeness auto
termination
  by (relation "measure (\<lambda>(cmp, left_bound, i, s). nat (i + 1 - left_bound))") auto

declare shaker_backward.simps [simp del]

text \<open>
  The \<^verbatim>\<open>while (left_bound <= right_bound)\<close> loop. \<^verbatim>\<open>no_swaps\<close> is set to true once,
  before the loop, and only ever cleared.
\<close>

function shaker_loop ::
  "('a \<Rightarrow> 'a \<Rightarrow> bool) \<Rightarrow> int \<Rightarrow> int \<Rightarrow> 'a list \<times> bool \<times> nat \<Rightarrow> 'a list \<times> nat" where
  "shaker_loop cmp left_bound right_bound (a, no_swaps, c) =
     (if left_bound \<le> right_bound
      then (case shaker_forward cmp right_bound left_bound (a, no_swaps, c) of
              (a1, no_swaps1, c1) \<Rightarrow>
                if no_swaps1 then (a1, c1)
                else (case shaker_backward cmp (left_bound + 1) right_bound (a1, c1) of
                        (a2, c2) \<Rightarrow>
                          if no_swaps1 then (a2, c2)
                          else shaker_loop cmp (left_bound + 1) (right_bound - 1)
                                 (a2, no_swaps1, c2)))
      else (a, c))"
  by pat_completeness auto
termination
  by (relation "measure (\<lambda>(cmp, left_bound, right_bound, s). nat (right_bound + 1 - left_bound))")
    auto

declare shaker_loop.simps [simp del]

definition shaker_sort :: "('a \<Rightarrow> 'a \<Rightarrow> bool) \<Rightarrow> 'a list \<Rightarrow> 'a list \<times> nat" where
  "shaker_sort cmp a = shaker_loop cmp 0 (int (length a) - 1) (a, True, 0)"

subsection \<open>Merge and merge sort\<close>

text \<open>
  \<^verbatim>\<open>merge\<close> reads the two sub-ranges \<open>l\<close> and \<open>r\<close>. The \<^verbatim>\<open>while\<close> loop pushes the
  left head when \<^verbatim>\<open>comp(*i, *j)\<close> holds and the right head otherwise.
\<close>

function merge_loop ::
  "('a \<Rightarrow> 'a \<Rightarrow> bool) \<Rightarrow> 'a list \<Rightarrow> 'a list \<Rightarrow> nat \<Rightarrow> nat \<Rightarrow> 'a list \<times> nat
     \<Rightarrow> 'a list \<times> nat \<times> nat \<times> nat" where
  "merge_loop cmp l r i j (result, c) =
     (if i < length l \<and> j < length r
      then (if cmp (l ! i) (r ! j)
            then merge_loop cmp l r (i + 1) j (result @ [l ! i], c + 1)
            else merge_loop cmp l r i (j + 1) (result @ [r ! j], c + 1))
      else (result, i, j, c))"
  by pat_completeness auto
termination
  by (relation "measure (\<lambda>(cmp, l, r, i, j, s). (length l - i) + (length r - j))") auto

declare merge_loop.simps [simp del]

text \<open>
  The two trailing \<^verbatim>\<open>for\<close> loops append what is left of \<open>l\<close>, then of \<open>r\<close>;
  \<^verbatim>\<open>std::copy\<close> writes the buffer back over the combined range, which has the
  buffer's length.
\<close>

definition merge :: "('a \<Rightarrow> 'a \<Rightarrow> bool) \<Rightarrow> 'a list \<Rightarrow> 'a list \<Rightarrow> 'a list \<times> nat" where
  "merge cmp l r =
     (case merge_loop cmp l r 0 0 ([], 0) of
        (result, i, j, c) \<Rightarrow> (result @ drop i l @ drop j r, c))"

text \<open>
  \<^verbatim>\<open>merge_sort\<close> returns at once only when \<^verbatim>\<open>first + 1 == last\<close>; otherwise it
  recurses on \<^verbatim>\<open>[first, first + mid)\<close> and \<^verbatim>\<open>[first + mid, last)\<close> with
  \<^verbatim>\<open>mid = distance / 2\<close>, the two sub-ranges being \<open>take mid a\<close> and \<open>drop mid a\<close>.
  The recursion need not end, so the result is an option and \<open>None\<close> stands for a
  call that never returns.
\<close>

partial_function (option) merge_sort ::
  "('a \<Rightarrow> 'a \<Rightarrow> bool) \<Rightarrow> 'a list \<Rightarrow> ('a list \<times> nat) option" where
  "merge_sort cmp a =
     (if length a = 1 then Some (a, 0)
      else
        let mid = length a div 2 in
        Option.bind (merge_sort cmp (take mid a)) (\<lambda>(l, c1).
        Option.bind (merge_sort cmp (drop mid a)) (\<lambda>(r, c2).
        case merge cmp l r of (res, c3) \<Rightarrow> Some (res, c1 + c2 + c3))))"

declare merge_sort.simps [code]

section \<open>Reading and writing datasets\<close>

text \<open>
  What can go wrong below: \<^verbatim>\<open>std::stoi\<close> throws \<^verbatim>\<open>std::invalid_argument\<close> or
  \<^verbatim>\<open>std::out_of_range\<close> (as \<^verbatim>\<open>vector::at\<close> does), nothing catches either;
  \<^verbatim>\<open>fields_v[k]\<close> is unchecked, so an index past the end has no defined behaviour;
  and a call of \<^verbatim>\<open>merge_sort\<close> may never return.
\<close>

datatype error = Invalid_Argument | Out_Of_Range | Undefined_Behaviour | No_Return

definition newline :: char where
  "newline = CHR 0x0A"

text \<open>
  \<^verbatim>\<open>std::getline(is, t, del)\<close> on the unread rest of a stream: it fails when nothing
  is left, otherwise it yields the characters before the first delimiter and consumes
  the delimiter too.
\<close>

definition getline :: "string \<Rightarrow> char \<Rightarrow> (string \<times> string) option" where
  "getline strm del =
     (if strm = [] then None
      else Some (takeWhile (\<lambda>ch. ch \<noteq> del) strm, drop 1 (dropWhile (\<lambda>ch. ch \<noteq> del) strm)))"

text \<open>The loop \<^verbatim>\<open>while (std::getline(is, t, del)) out.push_back(t)\<close>.\<close>

function getlines :: "string \<Rightarrow> char \<Rightarrow> string list \<Rightarrow> string list" where
  "getlines strm del out =
     (case getline strm del of
        None \<Rightarrow> out
      | Some (t, strm') \<Rightarrow> getlines strm' del (out @ [t]))"
  by pat_completeness auto
termination
proof (relation "measure (\<lambda>(strm, del, out). length strm)", goal_cases)
  case 1
  show ?case by simp
next
  case (2 strm del out x t strm')
  then have ne: "strm \<noteq> []" and s': "strm' = drop 1 (dropWhile (\<lambda>ch. ch \<noteq> del) strm)"
    by (auto simp: getline_def split: if_splits)
  have "length (dropWhile (\<lambda>ch. ch \<noteq> del) strm) \<le> length strm"
    by (rule length_dropWhile_le)
  then have "length strm' < length strm"
    using ne s' by (cases "dropWhile (\<lambda>ch. ch \<noteq> del) strm") auto
  then show ?case by simp
qed

declare getlines.simps [simp del]

definition split :: "string \<Rightarrow> char \<Rightarrow> string list" where
  "split str del = getlines str del []"

subsection \<open>Library functions on numbers\<close>

text \<open>
  \<^verbatim>\<open>std::stoi\<close> (base 10), after the standard's description of \<^verbatim>\<open>strtol\<close>: skip
  leading white space, read an optional sign and then as many decimal digits as there
  are; no digit is \<^verbatim>\<open>std::invalid_argument\<close>, a value outside \<^verbatim>\<open>int\<close> is
  \<^verbatim>\<open>std::out_of_range\<close>; whatever follows the digits is ignored.
\<close>

definition isspace :: "char \<Rightarrow> bool" where
  "isspace ch = (ch \<in> set [CHR '' '', CHR 0x09, CHR 0x0A, CHR 0x0B, CHR 0x0C, CHR 0x0D])"

definition isdigit :: "char \<Rightarrow> bool" where
  "isdigit ch = (ch \<in> set ''0123456789'')"

definition digit_value :: "char \<Rightarrow> int" where
  "digit_value ch = int (of_char ch) - 48"

definition digits_value :: "string \<Rightarrow> int" where
  "digits_value ds = foldl (\<lambda>v ch. 10 * v + digit_value ch) 0 ds"

definition stoi :: "string \<Rightarrow> error + int" where
  "stoi str =
     (let s1 = dropWhile isspace str;
          neg = (s1 \<noteq> [] \<and> hd s1 = CHR ''-'');
          s2 = (if s1 \<noteq> [] \<and> (hd s1 = CHR ''-'' \<or> hd s1 = CHR ''+'') then tl s1 else s1);
          ds = takeWhile isdigit s2;
          v = (if neg then - digits_value ds else digits_value ds)
      in if ds = [] then Inl Invalid_Argument
         else if v < - 2147483648 \<or> 2147483647 < v then Inl Out_Of_Range
         else Inr v)"

text \<open>
  \<^verbatim>\<open>std::to_string\<close> of an \<^verbatim>\<open>int\<close>, which is also how \<^verbatim>\<open>operator<<\<close> prints one:
  decimal digits, with a minus sign for a negative number.
\<close>

function digits :: "nat \<Rightarrow> string" where
  "digits n = (if n < 10 then [''0123456789'' ! n]
               else digits (n div 10) @ [''0123456789'' ! (n mod 10)])"
  by pat_completeness auto
termination
  by (relation "measure (\<lambda>n. n)") auto

declare digits.simps [simp del]

definition to_string :: "int \<Rightarrow> string" where
  "to_string n = (if n < 0 then CHR ''-'' # digits (nat (- n)) else digits (nat n))"

subsection \<open>The outside world\<close>

text \<open>
  The files that can be opened for reading, with their contents; the paths that can be
  opened for writing; what has been written to \<^verbatim>\<open>std::cout\<close> and \<^verbatim>\<open>std::cerr\<close>; and
  the monotonic clock: \<open>ticks w k\<close> is what the \<open>k\<close>-th call of
  \<^verbatim>\<open>steady_clock::now()\<close> answers, in seconds, and \<open>reads w\<close> counts the calls made.
\<close>

record world =
  files :: "string \<rightharpoonup> string"
  writable :: "string \<Rightarrow> bool"
  cout :: string
  cerr :: string
  ticks :: "nat \<Rightarrow> real"
  reads :: nat

subsection \<open>read\_csv and write\_csv\<close>

text \<open>
  The body of the \<^verbatim>\<open>while\<close> loop of \<^verbatim>\<open>read_csv\<close> over the lines read. All four
  \<^verbatim>\<open>fields_v[k]\<close> are evaluated for the constructor call, so fewer than four fields
  is an access past the end.
\<close>

fun read_csv_loop :: "string list \<Rightarrow> Soldier list \<Rightarrow> error + Soldier list" where
  "read_csv_loop [] data = Inr data"
| "read_csv_loop (line # lines) data =
     (let fields_v = split line CHR '','' in
      if length fields_v < 4 then Inl Undefined_Behaviour
      else
        (case stoi (fields_v ! 3) of
           Inl e \<Rightarrow> Inl e
         | Inr s \<Rightarrow>
             read_csv_loop lines
               (data @ [\<lparr>full_name = fields_v ! 0, job = fields_v ! 1,
                         unit = fields_v ! 2, salary = s\<rparr>])))"

text \<open>
  \<^verbatim>\<open>read_csv\<close>: a file that cannot be opened costs one line on \<^verbatim>\<open>std::cerr\<close>, and
  the function goes on: \<^verbatim>\<open>std::getline\<close> on the unopened stream fails at once.
\<close>

definition read_csv :: "string \<Rightarrow> world \<Rightarrow> (error + Soldier list) \<times> world" where
  "read_csv filename w =
     (case files w filename of
        None \<Rightarrow>
          (read_csv_loop [] [],
           w\<lparr>cerr := cerr w @ ''read_csv: Couldn't open file'' @ [newline]\<rparr>)
      | Some content \<Rightarrow> (read_csv_loop (getlines content newline []) [], w))"

definition csv_line :: "Soldier \<Rightarrow> string" where
  "csv_line v =
     full_name v @ '','' @ job v @ '','' @ unit v @ '','' @ to_string (salary v) @ [newline]"

text \<open>
  \<^verbatim>\<open>write_csv\<close>: opening replaces the file; when it cannot be opened the message goes to
  \<^verbatim>\<open>std::cerr\<close> and the insertions into the failed stream write nothing.
\<close>

definition write_csv :: "string \<Rightarrow> Soldier list \<Rightarrow> world \<Rightarrow> world" where
  "write_csv filename data w =
     (if writable w filename
      then w\<lparr>files := (files w)(filename \<mapsto> concat (map csv_line data))\<rparr>
      else w\<lparr>cerr := cerr w @ ''read_csv: Couldn't open file'' @ [newline]\<rparr>)"

section \<open>The benchmark harness\<close>

text \<open>\<^verbatim>\<open>steady_clock::now()\<close>.\<close>

definition now :: "world \<Rightarrow> real \<times> world" where
  "now w = (ticks w (reads w), w\<lparr>reads := reads w + 1\<rparr>)"

text \<open>\<^verbatim>\<open>vector::at\<close>, which checks its index.\<close>

definition vector_at :: "'a list \<Rightarrow> int \<Rightarrow> error + 'a" where
  "vector_at v n = (if 0 \<le> n \<and> n < int (length v) then Inr (v ! nat n) else Inl Out_Of_Range)"

text \<open>
  The chain of \<^verbatim>\<open>if (algo == ...)\<close> in \<^verbatim>\<open>get_time\<close>, with \<^verbatim>\<open>std::less<Soldier>\<close>,
  which calls \<^verbatim>\<open>operator<\<close>. It has no final \<^verbatim>\<open>else\<close>. \<^verbatim>\<open>std::sort\<close> belongs to the
  standard library and is a parameter.
\<close>

definition sort_by_name ::
  "((Soldier \<Rightarrow> Soldier \<Rightarrow> bool) \<Rightarrow> Soldier list \<Rightarrow> Soldier list) \<Rightarrow> string \<Rightarrow> Soldier list
     \<Rightarrow> error + Soldier list" where
  "sort_by_name std_sort algo data =
     (if algo = ''insertion_sort'' then Inr (fst (insertion_sort soldier_less data))
      else if algo = ''shaker_sort'' then Inr (fst (shaker_sort soldier_less data))
      else if algo = ''merge_sort'' then
        (case merge_sort soldier_less data of
           None \<Rightarrow> Inl No_Return
         | Some (sorted_data, c) \<Rightarrow> Inr sorted_data)
      else if algo = ''std::sort'' then Inr (std_sort soldier_less data)
      else Inr data)"

text \<open>
  The two file names of round \<open>i\<close>:
  \<^verbatim>\<open>"./data/in/dataset_" + std::to_string(i) + ".csv"\<close> and
  \<^verbatim>\<open>"data/out/insertion/dataset_" + std::to_string(i) + ".csv"\<close>. The second one is
  built from the literal \<^verbatim>\<open>insertion\<close> whatever \<^verbatim>\<open>algo\<close> is.
\<close>

definition in_path :: "int \<Rightarrow> string" where
  "in_path i = ''./data/in/dataset_'' @ to_string i @ ''.csv''"

definition out_path :: "int \<Rightarrow> string" where
  "out_path i = ''data/out/insertion/dataset_'' @ to_string i @ ''.csv''"

text \<open>
  One round of the \<^verbatim>\<open>for\<close> loop of \<^verbatim>\<open>get_time\<close>, for dataset \<open>i\<close>. Printing a
  \<^verbatim>\<open>double\<close> is left to the parameter \<open>show_double\<close>.
\<close>

definition get_time_step ::
  "((Soldier \<Rightarrow> Soldier \<Rightarrow> bool) \<Rightarrow> Soldier list \<Rightarrow> Soldier list) \<Rightarrow> (real \<Rightarrow> string) \<Rightarrow> string
     \<Rightarrow> int \<Rightarrow> real list \<times> real list \<Rightarrow> world \<Rightarrow> (error + real list \<times> real list) \<times> world" where
  "get_time_step std_sort show_double algo i xy w =
     (case read_csv (in_path i) w of
        (Inl e, w1) \<Rightarrow> (Inl e, w1)
      | (Inr data, w1) \<Rightarrow>
          (case now w1 of (start, w2) \<Rightarrow>
          (case sort_by_name std_sort algo data of
             Inl e \<Rightarrow> (Inl e, w2)
           | Inr data' \<Rightarrow>
               (case now w2 of (finish, w3) \<Rightarrow>
                  let elapsed_seconds = finish - start;
                      x = fst xy @ [real (length data')];
                      y = snd xy @ [elapsed_seconds];
                      w4 = write_csv (out_path i) data' w3
                  in (case vector_at y (i - 1) of
                        Inl e \<Rightarrow> (Inl e, w4)
                      | Inr t \<Rightarrow>
                          (Inr (x, y),
                           w4\<lparr>cout := cout w4 @ algo @ '': dataset_n='' @ to_string i
                                  @ '' size='' @ to_string (int (length data'))
                                  @ '' time='' @ show_double t @ [newline]\<rparr>))))))"

text \<open>
  The loop \<^verbatim>\<open>for (int i{1}; i <= j; ++i)\<close>; an exception ends it. The counters are
  32-bit \<^verbatim>\<open>int\<close>s: after the round with \<open>i = 2\<^sup>3\<^sup>1 - 1\<close>, which is only reached for
  \<open>j = 2\<^sup>3\<^sup>1 - 1\<close>, \<^verbatim>\<open>++i\<close> overflows, and a signed overflow has no defined
  behaviour. The sizes and the elapsed seconds are \<^verbatim>\<open>double\<close>s, taken as real numbers:
  a size is represented exactly, and rounding the difference of two clock readings does
  not change its sign.
\<close>

function get_time_loop ::
  "((Soldier \<Rightarrow> Soldier \<Rightarrow> bool) \<Rightarrow> Soldier list \<Rightarrow> Soldier list) \<Rightarrow> (real \<Rightarrow> string) \<Rightarrow> int
     \<Rightarrow> string \<Rightarrow> int \<Rightarrow> real list \<times> real list \<Rightarrow> world
     \<Rightarrow> (error + real list \<times> real list) \<times> world" where
  "get_time_loop std_sort show_double j algo i xy w =
     (if i \<le> j
      then (case get_time_step std_sort show_double algo i xy w of
              (Inl e, w') \<Rightarrow> (Inl e, w')
            | (Inr xy', w') \<Rightarrow>
                if i = 2147483647 then (Inl Undefined_Behaviour, w')
                else get_time_loop std_sort show_double j algo (i + 1) xy' w')
      else (Inr xy, w))"
  by pat_completeness auto
termination
  by (relation "measure (\<lambda>(std_sort, show_double, j, algo, i, xy, w). nat (j + 1 - i))") auto

declare get_time_loop.simps [simp del]

definition get_time ::
  "((Soldier \<Rightarrow> Soldier \<Rightarrow> bool) \<Rightarrow> Soldier list \<Rightarrow> Soldier list) \<Rightarrow> (real \<Rightarrow> string) \<Rightarrow> int
     \<Rightarrow> string \<Rightarrow> world \<Rightarrow> (error + real list \<times> real list) \<times> world" where
  "get_time std_sort show_double j algo w =
     get_time_loop std_sort show_double j algo 1 ([], []) w"

subsection \<open>A world to run examples in\<close>

text \<open>
  No file can be read, every path can be written, nothing has been printed, and the
  \<open>k\<close>-th reading of the clock is \<open>k\<close> seconds.
\<close>

definition empty_world :: world where
  "empty_world =
     \<lparr>files = Map.empty, writable = (\<lambda>p. True), cout = [], cerr = [], ticks = real, reads = 0\<rparr>"

section \<open>Predicates used in the proofs\<close>

text \<open>
  \<open>sorted_upto f a n\<close>: the first \<open>n\<close> elements of \<open>a\<close> are non-decreasing in the
  key \<open>f\<close>. \<open>swap_rel f lo hi a b\<close>: \<open>b\<close> rearranges \<open>a\<close> inside the positions
  \<open>[lo, hi)\<close> only, and keeps the relative order of elements with equal keys.
\<close>

definition sorted_upto :: "('a \<Rightarrow> 'k::linorder) \<Rightarrow> 'a list \<Rightarrow> nat \<Rightarrow> bool" where
  "sorted_upto f a n = (\<forall>p q. p \<le> q \<and> q < n \<longrightarrow> f (a ! p) \<le> f (a ! q))"

definition swap_rel :: "('a \<Rightarrow> 'k) \<Rightarrow> nat \<Rightarrow> nat \<Rightarrow> 'a list \<Rightarrow> 'a list \<Rightarrow> bool" where
  "swap_rel f lo hi a b =
     (length b = length a \<and> mset b = mset a \<and>
      (\<forall>k. filter (\<lambda>x. f x = k) b = filter (\<lambda>x. f x = k) a) \<and>
      (\<forall>q. (q < lo \<or> hi \<le> q) \<and> q < length a \<longrightarrow> b ! q = a ! q) \<and>
      (\<forall>q. lo \<le> q \<and> q < hi \<longrightarrow> (\<exists>q'. lo \<le> q' \<and> q' < hi \<and> b ! q = a ! q')))"

text \<open>
  State of the inner loop of insertion sort while the key \<open>t\<close> is still moving: it sits
  at position \<open>J\<close>, the other elements of \<open>[0, i]\<close> are in order, and those to its
  right are strictly greater.
\<close>

definition moving :: "('a \<Rightarrow> 'k::linorder) \<Rightarrow> 'a list \<Rightarrow> nat \<Rightarrow> nat \<Rightarrow> bool" where
  "moving f a J i =
     (J \<le> i \<and> i < length a \<and>
      (\<forall>p q. p \<le> q \<and> q \<le> i \<and> p \<noteq> J \<and> q \<noteq> J \<longrightarrow> f (a ! p) \<le> f (a ! q)) \<and>
      (\<forall>q. J < q \<and> q \<le> i \<longrightarrow> f (a ! J) < f (a ! q)))"

text \<open>
  For shaker sort: \<open>max_at f a lo m\<close> says that position \<open>m\<close> holds a greatest key of
  \<open>[lo, m]\<close>, \<open>min_at f a m hi\<close> that position \<open>m\<close> holds a least key of \<open>[m, hi)\<close>.
  \<open>left_done f a l\<close>: every position below \<open>l\<close> is at most everything to its right;
  \<open>right_done f a r\<close>: every position from \<open>r\<close> on is at least everything to its left.
\<close>

definition max_at :: "('a \<Rightarrow> 'k::linorder) \<Rightarrow> 'a list \<Rightarrow> nat \<Rightarrow> nat \<Rightarrow> bool" where
  "max_at f a lo m = (\<forall>p. lo \<le> p \<and> p \<le> m \<longrightarrow> f (a ! p) \<le> f (a ! m))"

definition min_at :: "('a \<Rightarrow> 'k::linorder) \<Rightarrow> 'a list \<Rightarrow> nat \<Rightarrow> nat \<Rightarrow> bool" where
  "min_at f a m hi = (\<forall>p. m \<le> p \<and> p < hi \<longrightarrow> f (a ! m) \<le> f (a ! p))"

definition left_done :: "('a \<Rightarrow> 'k::linorder) \<Rightarrow> 'a list \<Rightarrow> nat \<Rightarrow> bool" where
  "left_done f a l = (\<forall>p q. p < l \<and> p \<le> q \<and> q < length a \<longrightarrow> f (a ! p) \<le> f (a ! q))"

definition right_done :: "('a \<Rightarrow> 'k::linorder) \<Rightarrow> 'a list \<Rightarrow> nat \<Rightarrow> bool" where
  "right_done f a r = (\<forall>p q. r \<le> q \<and> p \<le> q \<and> q < length a \<longrightarrow> f (a ! p) \<le> f (a ! q))"

text \<open>
  The list function that \<open>merge\<close> computes, by recursion on the two sub-ranges; the
  proofs about \<open>merge\<close> go through it.
\<close>

fun merge_lists :: "('a \<Rightarrow> 'a \<Rightarrow> bool) \<Rightarrow> 'a list \<Rightarrow> 'a list \<Rightarrow> 'a list" where
  "merge_lists cmp [] ys = ys"
| "merge_lists cmp xs [] = xs"
| "merge_lists cmp (x # xs) (y # ys) =
     (if cmp x y then x # merge_lists cmp xs (y # ys) else y # merge_lists cmp (x # xs) ys)"

section \<open>Exchanging two elements\<close>

lemma length_iter_swap [simp]: "length (iter_swap a p q) = length a"
  by (simp add: iter_swap_def)

lemma nth_iter_swap:
  "p < length a \<Longrightarrow> q < length a \<Longrightarrow>
   iter_swap a p q ! k = (if k = q then a ! p else if k = p then a ! q else a ! k)"
  by (simp add: iter_swap_def nth_list_update)

lemma mset_iter_swap:
  "p < length a \<Longrightarrow> q < length a \<Longrightarrow> mset (iter_swap a p q) = mset a"
  by (simp add: iter_swap_def mset_swap)

lemma iter_swap_commute: "p < length a \<Longrightarrow> q < length a \<Longrightarrow> iter_swap a p q = iter_swap a q p"
  by (rule nth_equalityI) (auto simp: nth_iter_swap)

lemma iter_swap_adjacent:
  assumes "Suc p < length a"
  shows "iter_swap a p (Suc p) = take p a @ [a ! Suc p, a ! p] @ drop (Suc (Suc p)) a"
proof (rule nth_equalityI)
  show "length (iter_swap a p (Suc p)) = length (take p a @ [a ! Suc p, a ! p] @ drop (Suc (Suc p)) a)"
    using assms by simp
next
  fix k assume "k < length (iter_swap a p (Suc p))"
  then have k: "k < length a" by simp
  consider "k < p" | "k = p" | "k = Suc p" | "k > Suc p" by linarith
  then show "iter_swap a p (Suc p) ! k = (take p a @ [a ! Suc p, a ! p] @ drop (Suc (Suc p)) a) ! k"
  proof cases
    case 1 then show ?thesis using assms by (simp add: nth_iter_swap nth_append)
  next
    case 2 then show ?thesis using assms by (simp add: nth_iter_swap nth_append)
  next
    case 3 then show ?thesis using assms by (simp add: nth_iter_swap nth_append)
  next
    case 4
    then obtain d where "k = Suc (Suc p) + d" using less_imp_add_positive
      by (metis Suc_leI add_Suc le_Suc_ex)
    then show ?thesis using assms k by (simp add: nth_iter_swap nth_append)
  qed
qed

lemma list_adjacent_split:
  assumes "Suc p < length a"
  shows "a = take p a @ [a ! p, a ! Suc p] @ drop (Suc (Suc p)) a"
proof -
  have "a = take p a @ drop p a" by simp
  also have "drop p a = a ! p # drop (Suc p) a"
    using assms by (simp add: Cons_nth_drop_Suc)
  also have "drop (Suc p) a = a ! Suc p # drop (Suc (Suc p)) a"
    using assms by (simp add: Cons_nth_drop_Suc)
  finally show ?thesis by simp
qed

lemma filter_iter_swap_adjacent:
  assumes "Suc p < length a" and "f (a ! p) \<noteq> f (a ! Suc p)"
  shows "filter (\<lambda>x. f x = k) (iter_swap a p (Suc p)) = filter (\<lambda>x. f x = k) a"
proof -
  have two: "filter (\<lambda>x. f x = k) [a ! Suc p, a ! p] = filter (\<lambda>x. f x = k) [a ! p, a ! Suc p]"
    using assms(2) by auto
  have "filter (\<lambda>x. f x = k) (iter_swap a p (Suc p))
      = filter (\<lambda>x. f x = k) (take p a) @ filter (\<lambda>x. f x = k) [a ! Suc p, a ! p]
        @ filter (\<lambda>x. f x = k) (drop (Suc (Suc p)) a)"
    by (simp only: iter_swap_adjacent[OF assms(1)] filter_append)
  also have "\<dots> = filter (\<lambda>x. f x = k) (take p a @ [a ! p, a ! Suc p] @ drop (Suc (Suc p)) a)"
    by (simp only: two filter_append)
  also have "\<dots> = filter (\<lambda>x. f x = k) a"
    using list_adjacent_split[OF assms(1)] by simp
  finally show ?thesis .
qed

subsection \<open>Rearrangements inside a range\<close>

lemma swap_rel_refl: "swap_rel f lo hi a a"
  unfolding swap_rel_def by auto

lemma swap_rel_trans:
  assumes "swap_rel f lo hi a b" "swap_rel f lo hi b c"
  shows "swap_rel f lo hi a c"
proof -
  have len: "length b = length a" "length c = length b"
    using assms by (auto simp: swap_rel_def)
  have m: "mset c = mset a" using assms by (auto simp: swap_rel_def)
  have fl: "\<forall>k. filter (\<lambda>x. f x = k) c = filter (\<lambda>x. f x = k) a"
    using assms by (auto simp: swap_rel_def)
  have out: "\<forall>q. (q < lo \<or> hi \<le> q) \<and> q < length a \<longrightarrow> c ! q = a ! q"
    using assms len unfolding swap_rel_def by metis
  have inn: "\<forall>q. lo \<le> q \<and> q < hi \<longrightarrow> (\<exists>q'. lo \<le> q' \<and> q' < hi \<and> c ! q = a ! q')"
  proof (intro allI impI)
    fix q assume q: "lo \<le> q \<and> q < hi"
    then obtain q1 where q1: "lo \<le> q1" "q1 < hi" "c ! q = b ! q1"
      using assms(2) unfolding swap_rel_def by blast
    then obtain q2 where "lo \<le> q2" "q2 < hi" "b ! q1 = a ! q2"
      using assms(1) unfolding swap_rel_def by blast
    with q1 show "\<exists>q'. lo \<le> q' \<and> q' < hi \<and> c ! q = a ! q'" by auto
  qed
  show ?thesis unfolding swap_rel_def using len m fl out inn by simp
qed

lemma swap_rel_mono:
  assumes "swap_rel f lo hi a b" "lo' \<le> lo" "hi \<le> hi'" "hi' \<le> length a"
  shows "swap_rel f lo' hi' a b"
proof -
  have len: "length b = length a" using assms by (auto simp: swap_rel_def)
  have out: "\<forall>q. (q < lo' \<or> hi' \<le> q) \<and> q < length a \<longrightarrow> b ! q = a ! q"
    using assms unfolding swap_rel_def by auto
  have inn: "\<forall>q. lo' \<le> q \<and> q < hi' \<longrightarrow> (\<exists>q'. lo' \<le> q' \<and> q' < hi' \<and> b ! q = a ! q')"
  proof (intro allI impI)
    fix q assume q: "lo' \<le> q \<and> q < hi'"
    show "\<exists>q'. lo' \<le> q' \<and> q' < hi' \<and> b ! q = a ! q'"
    proof (cases "lo \<le> q \<and> q < hi")
      case True
      then obtain q1 where "lo \<le> q1" "q1 < hi" "b ! q = a ! q1"
        using assms(1) unfolding swap_rel_def by blast
      then show ?thesis using assms(2,3) by (intro exI[of _ q1]) auto
    next
      case False
      then have "b ! q = a ! q" using assms(1,4) q unfolding swap_rel_def by auto
      then show ?thesis using q by auto
    qed
  qed
  show ?thesis unfolding swap_rel_def using len out inn assms(1) by (simp add: swap_rel_def)
qed

lemma swap_rel_adjacent:
  assumes "Suc p < length a" "lo \<le> p" "Suc p < hi" "f (a ! p) \<noteq> f (a ! Suc p)"
  shows "swap_rel f lo hi a (iter_swap a p (Suc p))"
proof -
  have pl: "p < length a" using assms(1) by simp
  have inn: "\<forall>q. lo \<le> q \<and> q < hi \<longrightarrow>
      (\<exists>q'. lo \<le> q' \<and> q' < hi \<and> iter_swap a p (Suc p) ! q = a ! q')"
  proof (intro allI impI)
    fix q assume q: "lo \<le> q \<and> q < hi"
    consider "q = p" | "q = Suc p" | "q \<noteq> p \<and> q \<noteq> Suc p" by blast
    then show "\<exists>q'. lo \<le> q' \<and> q' < hi \<and> iter_swap a p (Suc p) ! q = a ! q'"
    proof cases
      case 1 then show ?thesis using assms pl
        by (intro exI[of _ "Suc p"]) (simp add: nth_iter_swap)
    next
      case 2 then show ?thesis using assms pl
        by (intro exI[of _ "p"]) (simp add: nth_iter_swap)
    next
      case 3 then show ?thesis using assms pl q
        by (intro exI[of _ "q"]) (simp add: nth_iter_swap)
    qed
  qed
  have out: "\<forall>q. (q < lo \<or> hi \<le> q) \<and> q < length a \<longrightarrow> iter_swap a p (Suc p) ! q = a ! q"
    using assms pl by (auto simp: nth_iter_swap)
  show ?thesis unfolding swap_rel_def
    using inn out mset_iter_swap[OF pl assms(1)] filter_iter_swap_adjacent[OF assms(1,4)]
    by simp
qed

section \<open>Insertion sort sorts and is stable\<close>

lemma insertion_inner_noop:
  "(\<forall>p. int p \<le> j \<longrightarrow> \<not> cmp t (a ! p)) \<Longrightarrow>
   insertion_inner cmp t j (a, c) = (a, c + nat (j + 1))"
proof (induction "nat (j + 1)" arbitrary: j c)
  case 0
  then show ?case by (simp add: insertion_inner.simps)
next
  case (Suc n)
  then have j: "j \<ge> 0" by linarith
  have no: "\<not> cmp t (a ! nat j)" using Suc.prems j by simp
  have "insertion_inner cmp t (j - 1) (a, c + 1) = (a, c + 1 + nat (j - 1 + 1))"
    using Suc.hyps(2) Suc.prems by (intro Suc.hyps(1)) auto
  then show ?case
    using j no by (subst insertion_inner.simps) (simp add: nat_add_distrib)
qed

lemma moving_sorted_upto:
  assumes "moving f a 0 i" shows "sorted_upto f a (Suc i)"
  unfolding sorted_upto_def
proof (intro allI impI)
  fix p q assume pq: "p \<le> q \<and> q < Suc i"
  show "f (a ! p) \<le> f (a ! q)"
  proof (cases "p = 0")
    case True
    then show ?thesis using assms pq unfolding moving_def
      by (cases "q = 0") (auto simp: less_imp_le)
  next
    case False
    then show ?thesis using assms pq unfolding moving_def by auto
  qed
qed

lemma moving_step:
  assumes "moving f a (Suc J) i" "f (a ! Suc J) < f (a ! J)"
  shows "moving f (iter_swap a J (Suc J)) J i"
proof -
  let ?b = "iter_swap a J (Suc J)"
  have b: "Suc J < length a" "J < length a" using assms(1) by (auto simp: moving_def)
  have nth: "\<And>k. ?b ! k = (if k = Suc J then a ! J else if k = J then a ! Suc J else a ! k)"
    using b by (simp add: nth_iter_swap)
  have old1: "\<And>p q. p \<le> q \<Longrightarrow> q \<le> i \<Longrightarrow> p \<noteq> Suc J \<Longrightarrow> q \<noteq> Suc J \<Longrightarrow> f (a ! p) \<le> f (a ! q)"
    using assms(1) by (auto simp: moving_def)
  have old2: "\<And>q. Suc J < q \<Longrightarrow> q \<le> i \<Longrightarrow> f (a ! Suc J) < f (a ! q)"
    using assms(1) by (auto simp: moving_def)
  have c1: "\<forall>p q. p \<le> q \<and> q \<le> i \<and> p \<noteq> J \<and> q \<noteq> J \<longrightarrow> f (?b ! p) \<le> f (?b ! q)"
  proof (intro allI impI)
    fix p q assume h: "p \<le> q \<and> q \<le> i \<and> p \<noteq> J \<and> q \<noteq> J"
    show "f (?b ! p) \<le> f (?b ! q)"
    proof (cases "p = Suc J")
      case True
      then show ?thesis using h old1[of J q] by (cases "q = Suc J") (auto simp: nth)
    next
      case pf: False
      show ?thesis
      proof (cases "q = Suc J")
        case True
        then show ?thesis using h pf old1[of p J] by (auto simp: nth)
      next
        case False
        then show ?thesis using h pf old1[of p q] by (auto simp: nth)
      qed
    qed
  qed
  have c2: "\<forall>q. J < q \<and> q \<le> i \<longrightarrow> f (?b ! J) < f (?b ! q)"
  proof (intro allI impI)
    fix q assume h: "J < q \<and> q \<le> i"
    show "f (?b ! J) < f (?b ! q)"
      using h assms(2) old2[of q] by (cases "q = Suc J") (auto simp: nth)
  qed
  show ?thesis unfolding moving_def using c1 c2 assms(1) by (simp add: moving_def)
qed

lemma moving_stop:
  assumes "moving f a (Suc J) i" "\<not> f (a ! Suc J) < f (a ! J)"
  shows "sorted_upto f a (Suc i)"
  unfolding sorted_upto_def
proof (intro allI impI)
  fix p q assume pq: "p \<le> q \<and> q < Suc i"
  have old1: "\<And>p q. p \<le> q \<Longrightarrow> q \<le> i \<Longrightarrow> p \<noteq> Suc J \<Longrightarrow> q \<noteq> Suc J \<Longrightarrow> f (a ! p) \<le> f (a ! q)"
    using assms(1) by (auto simp: moving_def)
  have old2: "\<And>q. Suc J < q \<Longrightarrow> q \<le> i \<Longrightarrow> f (a ! Suc J) < f (a ! q)"
    using assms(1) by (auto simp: moving_def)
  have Ji: "Suc J \<le> i" using assms(1) by (auto simp: moving_def)
  have le: "f (a ! J) \<le> f (a ! Suc J)" using assms(2) by simp
  show "f (a ! p) \<le> f (a ! q)"
  proof (cases "p = Suc J")
    case True
    then show ?thesis using pq old2[of q] by (cases "q = Suc J") auto
  next
    case pf: False
    show ?thesis
    proof (cases "q = Suc J")
      case True
      have "f (a ! p) \<le> f (a ! J)" using old1[of p J] pq pf True Ji by auto
      then show ?thesis using le True by auto
    next
      case False
      then show ?thesis using pq pf old1[of p q] by auto
    qed
  qed
qed

lemma insertion_inner_moving:
  assumes "moving f a J i"
  shows "case insertion_inner (\<lambda>x y. f x < f y) (a ! J) (int J - 1) (a, c) of
           (a', c') \<Rightarrow> sorted_upto f a' (Suc i) \<and> swap_rel f 0 (Suc i) a a'"
  using assms
proof (induction J arbitrary: a c)
  case 0
  then show ?case
    by (simp add: insertion_inner.simps moving_sorted_upto swap_rel_refl)
next
  case (Suc J)
  have b: "Suc J < length a" "Suc J \<le> i" using Suc.prems by (auto simp: moving_def)
  show ?case
  proof (cases "f (a ! Suc J) < f (a ! J)")
    case True
    let ?b = "iter_swap a J (Suc J)"
    have mv: "moving f ?b J i" using moving_step[OF Suc.prems True] .
    have tb: "?b ! J = a ! Suc J" using b by (simp add: nth_iter_swap)
    have rel: "swap_rel f 0 (Suc i) a ?b"
      using b True by (intro swap_rel_adjacent) auto
    have unfold: "insertion_inner (\<lambda>x y. f x < f y) (a ! Suc J) (int (Suc J) - 1) (a, c)
        = insertion_inner (\<lambda>x y. f x < f y) (?b ! J) (int J - 1) (?b, c + 1)"
      using True by (subst insertion_inner.simps) (simp add: tb nat_add_distrib)
    from Suc.IH[OF mv, of "c + 1"] rel show ?thesis
      unfolding unfold by (auto intro: swap_rel_trans)
  next
    case False
    have srt: "sorted_upto f a (Suc i)" using moving_stop[OF Suc.prems False] .
    have le: "\<forall>p. int p \<le> int J - 1 \<longrightarrow> \<not> f (a ! Suc J) < f (a ! p)"
    proof (intro allI impI)
      fix p assume "int p \<le> int J - 1"
      then have "p \<le> Suc J" "Suc J < Suc i" using b by auto
      then have "f (a ! p) \<le> f (a ! Suc J)" using srt unfolding sorted_upto_def by blast
      then show "\<not> f (a ! Suc J) < f (a ! p)" by simp
    qed
    have "insertion_inner (\<lambda>x y. f x < f y) (a ! Suc J) (int (Suc J) - 1) (a, c)
        = insertion_inner (\<lambda>x y. f x < f y) (a ! Suc J) (int J - 1) (a, c + 1)"
      using False by (subst insertion_inner.simps) simp
    also have "\<dots> = (a, c + 1 + nat (int J - 1 + 1))"
      using le by (rule insertion_inner_noop)
    finally show ?thesis using srt by (simp add: swap_rel_refl)
  qed
qed

lemma sorted_upto_moving:
  assumes "sorted_upto f a i" "i < length a" shows "moving f a i i"
  using assms unfolding moving_def sorted_upto_def by auto

lemma sorted_upto_sorted:
  "sorted_upto f a (length a) \<Longrightarrow> sorted (map f a)"
  unfolding sorted_upto_def by (simp add: sorted_iff_nth_mono)

lemma insertion_outer_sorted:
  assumes "sorted_upto f a (nat i)" "1 \<le> i" "n = int (length a)"
  shows "case insertion_outer (\<lambda>x y. f x < f y) n i (a, c) of
           (a', c') \<Rightarrow> sorted_upto f a' (length a) \<and> swap_rel f 0 (length a) a a'"
  using assms
proof (induction "nat (n - i)" arbitrary: i a c)
  case 0
  then have "\<not> i < n" by simp
  moreover have "sorted_upto f a (length a)"
    using 0 unfolding sorted_upto_def by auto
  ultimately show ?case by (simp add: insertion_outer.simps swap_rel_refl)
next
  case (Suc m)
  then have lt: "i < n" by linarith
  have il: "nat i < length a" using lt Suc.prems by auto
  have idx: "i - 1 = int (nat i) - 1" using Suc.prems by simp
  obtain a1 c1 where inner:
    "insertion_inner (\<lambda>x y. f x < f y) (a ! nat i) (i - 1) (a, c) = (a1, c1)"
    by (cases "insertion_inner (\<lambda>x y. f x < f y) (a ! nat i) (i - 1) (a, c)") auto
  have mv: "moving f a (nat i) (nat i)"
    using sorted_upto_moving[OF Suc.prems(1) il] .
  have a1: "sorted_upto f a1 (Suc (nat i))" "swap_rel f 0 (Suc (nat i)) a a1"
    using insertion_inner_moving[OF mv, of c] inner unfolding idx[symmetric] by auto
  have len: "length a1 = length a" using a1(2) by (simp add: swap_rel_def)
  have rel: "swap_rel f 0 (length a) a a1"
    using a1(2) il by (intro swap_rel_mono[OF a1(2)]) auto
  have s1: "sorted_upto f a1 (nat (i + 1))"
    using a1(1) Suc.prems(2) by (simp add: nat_add_distrib)
  have IH: "case insertion_outer (\<lambda>x y. f x < f y) n (i + 1) (a1, c1) of
           (a', c') \<Rightarrow> sorted_upto f a' (length a1) \<and> swap_rel f 0 (length a1) a1 a'"
    using Suc.hyps(2) Suc.prems(2,3) len by (intro Suc.hyps(1)[OF _ s1]) auto
  have unfold: "insertion_outer (\<lambda>x y. f x < f y) n i (a, c)
      = insertion_outer (\<lambda>x y. f x < f y) n (i + 1) (a1, c1)"
    using lt inner by (subst insertion_outer.simps) simp
  show ?case unfolding unfold using IH rel len
    by (auto intro: swap_rel_trans)
qed

lemma insertion_sort_rel:
  "case insertion_sort (\<lambda>x y. f x < f y) a of
     (a', c') \<Rightarrow> sorted_upto f a' (length a) \<and> swap_rel f 0 (length a) a a'"
proof -
  have "sorted_upto f a (nat 1)" unfolding sorted_upto_def by auto
  from insertion_outer_sorted[OF this, of "int (length a)" 0]
  show ?thesis by (simp add: insertion_sort_def)
qed

lemma insertion_sort_sorted:
  fixes f :: "'a \<Rightarrow> 'k::linorder"
  shows "sorted (map f (fst (insertion_sort (\<lambda>x y. f x < f y) a)))"
  using insertion_sort_rel[of f a]
  by (auto simp: swap_rel_def split: prod.splits intro!: sorted_upto_sorted)

lemma insertion_sort_mset:
  fixes f :: "'a \<Rightarrow> 'k::linorder"
  shows "mset (fst (insertion_sort (\<lambda>x y. f x < f y) a)) = mset a"
  using insertion_sort_rel[of f a]
  by (auto simp: swap_rel_def split: prod.splits)

lemma insertion_sort_stable:
  fixes f :: "'a \<Rightarrow> 'k::linorder"
  shows "filter (\<lambda>x. f x = k) (fst (insertion_sort (\<lambda>x y. f x < f y) a)) = filter (\<lambda>x. f x = k) a"
  using insertion_sort_rel[of f a]
  by (auto simp: swap_rel_def split: prod.splits)

section \<open>Shaker sort sorts and is stable\<close>

lemma shaker_forward_rel:
  fixes f :: "'a \<Rightarrow> 'k::linorder"
  assumes "0 \<le> i" "R < int (length a)" "lo \<le> nat i" "nat R < hi"
  shows "case shaker_forward (\<lambda>x y. f x < f y) R i (a, ns, c) of
           (a', ns', c') \<Rightarrow> swap_rel f lo hi a a'"
  using assms
proof (induction "nat (R - i)" arbitrary: i a ns c)
  case 0
  then show ?case by (simp add: shaker_forward.simps swap_rel_refl)
next
  case (Suc m)
  then have lt: "i < R" by linarith
  have idx: "nat (i + 1) = Suc (nat i)" using Suc.prems(1) by (simp add: nat_add_distrib)
  have il: "Suc (nat i) < length a" using lt Suc.prems by linarith
  show ?case
  proof (cases "f (a ! Suc (nat i)) < f (a ! nat i)")
    case True
    let ?b = "iter_swap a (Suc (nat i)) (nat i)"
    have b: "?b = iter_swap a (nat i) (Suc (nat i))"
      using il by (intro iter_swap_commute) auto
    have rel: "swap_rel f lo hi a ?b"
      unfolding b using il True Suc.prems lt by (intro swap_rel_adjacent) auto
    have IH: "case shaker_forward (\<lambda>x y. f x < f y) R (i + 1) (?b, False, c + 1) of
           (a', ns', c') \<Rightarrow> swap_rel f lo hi ?b a'"
      using Suc.hyps(2) Suc.prems lt by (intro Suc.hyps(1)) auto
    have unfold: "shaker_forward (\<lambda>x y. f x < f y) R i (a, ns, c)
        = shaker_forward (\<lambda>x y. f x < f y) R (i + 1) (?b, False, c + 1)"
      using lt True by (subst shaker_forward.simps) (simp add: idx)
    show ?thesis unfolding unfold using IH rel by (auto intro: swap_rel_trans)
  next
    case False
    have IH: "case shaker_forward (\<lambda>x y. f x < f y) R (i + 1) (a, ns, c + 1) of
           (a', ns', c') \<Rightarrow> swap_rel f lo hi a a'"
      using Suc.hyps(2) Suc.prems lt by (intro Suc.hyps(1)) auto
    have unfold: "shaker_forward (\<lambda>x y. f x < f y) R i (a, ns, c)
        = shaker_forward (\<lambda>x y. f x < f y) R (i + 1) (a, ns, c + 1)"
      using lt False by (subst shaker_forward.simps) (simp add: idx)
    show ?thesis unfolding unfold using IH by auto
  qed
qed

lemma max_at_step_swap:
  assumes "max_at f a lo p" "Suc p < length a" "f (a ! Suc p) < f (a ! p)"
  shows "max_at f (iter_swap a (Suc p) p) lo (Suc p)"
  unfolding max_at_def
proof (intro allI impI)
  fix k assume k: "lo \<le> k \<and> k \<le> Suc p"
  have nth: "\<And>k. iter_swap a (Suc p) p ! k = (if k = p then a ! Suc p else if k = Suc p then a ! p else a ! k)"
    using assms(2) by (simp add: nth_iter_swap)
  show "f (iter_swap a (Suc p) p ! k) \<le> f (iter_swap a (Suc p) p ! Suc p)"
  proof (cases "k = p \<or> k = Suc p")
    case True
    then show ?thesis using assms(3) by (auto simp: nth)
  next
    case False
    then have "k \<le> p" using k by auto
    then show ?thesis using False k assms(1) by (auto simp: nth max_at_def)
  qed
qed

lemma max_at_step_keep:
  assumes "max_at f a lo p" "\<not> f (a ! Suc p) < f (a ! p)"
  shows "max_at f a lo (Suc p)"
  unfolding max_at_def
proof (intro allI impI)
  fix k assume k: "lo \<le> k \<and> k \<le> Suc p"
  show "f (a ! k) \<le> f (a ! Suc p)"
  proof (cases "k = Suc p")
    case True then show ?thesis by simp
  next
    case False
    then have "f (a ! k) \<le> f (a ! p)" using k assms(1) by (auto simp: max_at_def)
    then show ?thesis using assms(2) by auto
  qed
qed

lemma shaker_forward_max:
  assumes "0 \<le> i" "R < int (length a)" "i \<le> R" "max_at f a lo (nat i)"
  shows "case shaker_forward (\<lambda>x y. f x < f y) R i (a, ns, c) of
           (a', ns', c') \<Rightarrow> max_at f a' lo (nat R)"
  using assms
proof (induction "nat (R - i)" arbitrary: i a ns c)
  case 0
  then have "i = R" by simp
  then show ?case using 0 by (simp add: shaker_forward.simps)
next
  case (Suc m)
  then have lt: "i < R" by linarith
  have idx: "nat (i + 1) = Suc (nat i)" using Suc.prems(1) by (simp add: nat_add_distrib)
  have il: "Suc (nat i) < length a" using lt Suc.prems by linarith
  show ?case
  proof (cases "f (a ! Suc (nat i)) < f (a ! nat i)")
    case True
    let ?b = "iter_swap a (Suc (nat i)) (nat i)"
    have mx: "max_at f ?b lo (nat (i + 1))"
      unfolding idx using max_at_step_swap[OF Suc.prems(4) il True] .
    have IH: "case shaker_forward (\<lambda>x y. f x < f y) R (i + 1) (?b, False, c + 1) of
           (a', ns', c') \<Rightarrow> max_at f a' lo (nat R)"
      using Suc.hyps(2) Suc.prems lt by (intro Suc.hyps(1)[OF _ _ _ _ mx]) auto
    have unfold: "shaker_forward (\<lambda>x y. f x < f y) R i (a, ns, c)
        = shaker_forward (\<lambda>x y. f x < f y) R (i + 1) (?b, False, c + 1)"
      using lt True by (subst shaker_forward.simps) (simp add: idx)
    show ?thesis unfolding unfold using IH by auto
  next
    case False
    have mx: "max_at f a lo (nat (i + 1))"
      unfolding idx using max_at_step_keep[OF Suc.prems(4) False] .
    have IH: "case shaker_forward (\<lambda>x y. f x < f y) R (i + 1) (a, ns, c + 1) of
           (a', ns', c') \<Rightarrow> max_at f a' lo (nat R)"
      using Suc.hyps(2) Suc.prems lt by (intro Suc.hyps(1)[OF _ _ _ _ mx]) auto
    have unfold: "shaker_forward (\<lambda>x y. f x < f y) R i (a, ns, c)
        = shaker_forward (\<lambda>x y. f x < f y) R (i + 1) (a, ns, c + 1)"
      using lt False by (subst shaker_forward.simps) (simp add: idx)
    show ?thesis unfolding unfold using IH by auto
  qed
qed

lemma shaker_forward_no_swaps:
  fixes f :: "'a \<Rightarrow> 'k::linorder"
  assumes "0 \<le> i"
  shows "case shaker_forward (\<lambda>x y. f x < f y) R i (a, ns, c) of
           (a', ns', c') \<Rightarrow> ns' \<longrightarrow> ns \<and> a' = a \<and>
              (\<forall>p. i \<le> int p \<and> int p < R \<longrightarrow> f (a ! p) \<le> f (a ! Suc p))"
  using assms
proof (induction "nat (R - i)" arbitrary: i a ns c)
  case 0
  then have "\<not> i < R" by simp
  then show ?case by (auto simp: shaker_forward.simps)
next
  case (Suc m)
  then have lt: "i < R" by linarith
  have idx: "nat (i + 1) = Suc (nat i)" using Suc.prems(1) by (simp add: nat_add_distrib)
  show ?case
  proof (cases "f (a ! Suc (nat i)) < f (a ! nat i)")
    case True
    let ?b = "iter_swap a (Suc (nat i)) (nat i)"
    have IH: "case shaker_forward (\<lambda>x y. f x < f y) R (i + 1) (?b, False, c + 1) of
           (a', ns', c') \<Rightarrow> ns' \<longrightarrow> False \<and> a' = ?b \<and>
              (\<forall>p. i + 1 \<le> int p \<and> int p < R \<longrightarrow> f (?b ! p) \<le> f (?b ! Suc p))"
      using Suc.hyps(2) Suc.prems lt by (intro Suc.hyps(1)) auto
    have unfold: "shaker_forward (\<lambda>x y. f x < f y) R i (a, ns, c)
        = shaker_forward (\<lambda>x y. f x < f y) R (i + 1) (?b, False, c + 1)"
      using lt True by (subst shaker_forward.simps) (simp add: idx)
    show ?thesis unfolding unfold using IH by auto
  next
    case False
    have IH: "case shaker_forward (\<lambda>x y. f x < f y) R (i + 1) (a, ns, c + 1) of
           (a', ns', c') \<Rightarrow> ns' \<longrightarrow> ns \<and> a' = a \<and>
              (\<forall>p. i + 1 \<le> int p \<and> int p < R \<longrightarrow> f (a ! p) \<le> f (a ! Suc p))"
      using Suc.hyps(2) Suc.prems lt by (intro Suc.hyps(1)) auto
    have unfold: "shaker_forward (\<lambda>x y. f x < f y) R i (a, ns, c)
        = shaker_forward (\<lambda>x y. f x < f y) R (i + 1) (a, ns, c + 1)"
      using lt False by (subst shaker_forward.simps) (simp add: idx)
    have here: "\<And>p. i \<le> int p \<Longrightarrow> \<not> i + 1 \<le> int p \<Longrightarrow> p = nat i" by linarith
    show ?thesis unfolding unfold using IH False
      apply (clarsimp split: prod.splits)
      subgoal for a' c' p
        by (cases "i + 1 \<le> int p") (auto dest: here)
      done
  qed
qed

lemma shaker_backward_unfold:
  assumes "L \<le> i" "1 \<le> L"
  shows "shaker_backward cmp L i (a, c)
       = shaker_backward cmp L (i - 1)
           (if cmp (a ! Suc (nat (i - 1))) (a ! nat (i - 1))
            then iter_swap a (Suc (nat (i - 1))) (nat (i - 1)) else a, c + 1)"
proof -
  have "nat i = Suc (nat (i - 1))" using assms by linarith
  then show ?thesis using assms(1) by (subst shaker_backward.simps) simp
qed

lemma shaker_backward_rel:
  fixes f :: "'a \<Rightarrow> 'k::linorder"
  assumes "1 \<le> L" "i < int (length a)" "lo \<le> nat (L - 1)" "nat i < hi"
  shows "case shaker_backward (\<lambda>x y. f x < f y) L i (a, c) of
           (a', c') \<Rightarrow> swap_rel f lo hi a a'"
  using assms
proof (induction "nat (i + 1 - L)" arbitrary: i a c)
  case 0
  then have "\<not> L \<le> i" by simp
  then show ?case by (simp add: shaker_backward.simps swap_rel_refl)
next
  case (Suc m)
  then have ge: "L \<le> i" by linarith
  let ?p = "nat (i - 1)"
  have pl: "Suc ?p < length a" using ge Suc.prems by linarith
  have plo: "lo \<le> ?p" using ge Suc.prems by linarith
  have phi: "Suc ?p < hi" using ge Suc.prems by linarith
  show ?case
  proof (cases "f (a ! Suc ?p) < f (a ! ?p)")
    case True
    let ?b = "iter_swap a (Suc ?p) ?p"
    have b: "?b = iter_swap a ?p (Suc ?p)"
      using pl by (intro iter_swap_commute) auto
    have rel: "swap_rel f lo hi a ?b"
      unfolding b using pl True plo phi by (intro swap_rel_adjacent) auto
    have IH: "case shaker_backward (\<lambda>x y. f x < f y) L (i - 1) (?b, c + 1) of
           (a', c') \<Rightarrow> swap_rel f lo hi ?b a'"
      using Suc.hyps(2) Suc.prems ge by (intro Suc.hyps(1)) auto
    show ?thesis
      unfolding shaker_backward_unfold[OF ge Suc.prems(1)] using True IH rel
      by (auto intro: swap_rel_trans)
  next
    case False
    have IH: "case shaker_backward (\<lambda>x y. f x < f y) L (i - 1) (a, c + 1) of
           (a', c') \<Rightarrow> swap_rel f lo hi a a'"
      using Suc.hyps(2) Suc.prems ge by (intro Suc.hyps(1)) auto
    show ?thesis
      unfolding shaker_backward_unfold[OF ge Suc.prems(1)] using False IH by auto
  qed
qed

lemma min_at_step_swap:
  assumes "min_at f a (Suc p) hi" "Suc p < length a" "f (a ! Suc p) < f (a ! p)"
  shows "min_at f (iter_swap a (Suc p) p) p hi"
  unfolding min_at_def
proof (intro allI impI)
  fix k assume k: "p \<le> k \<and> k < hi"
  have nth: "\<And>k. iter_swap a (Suc p) p ! k = (if k = p then a ! Suc p else if k = Suc p then a ! p else a ! k)"
    using assms(2) by (simp add: nth_iter_swap)
  show "f (iter_swap a (Suc p) p ! p) \<le> f (iter_swap a (Suc p) p ! k)"
  proof (cases "k = p \<or> k = Suc p")
    case True
    then show ?thesis using assms(3) by (auto simp: nth)
  next
    case False
    then have "Suc p \<le> k" using k by auto
    then show ?thesis using False k assms(1) by (auto simp: nth min_at_def)
  qed
qed

lemma min_at_step_keep:
  assumes "min_at f a (Suc p) hi" "\<not> f (a ! Suc p) < f (a ! p)"
  shows "min_at f a p hi"
  unfolding min_at_def
proof (intro allI impI)
  fix k assume k: "p \<le> k \<and> k < hi"
  show "f (a ! p) \<le> f (a ! k)"
  proof (cases "k = p")
    case True then show ?thesis by simp
  next
    case False
    then have "f (a ! Suc p) \<le> f (a ! k)" using k assms(1) by (auto simp: min_at_def)
    then show ?thesis using assms(2) by auto
  qed
qed

lemma shaker_backward_min:
  assumes "1 \<le> L" "i < int (length a)" "L - 1 \<le> i" "min_at f a (nat i) hi"
  shows "case shaker_backward (\<lambda>x y. f x < f y) L i (a, c) of
           (a', c') \<Rightarrow> min_at f a' (nat (L - 1)) hi"
  using assms
proof (induction "nat (i + 1 - L)" arbitrary: i a c)
  case 0
  then have "i = L - 1" by simp
  then show ?case using 0 by (simp add: shaker_backward.simps)
next
  case (Suc m)
  then have ge: "L \<le> i" by linarith
  let ?p = "nat (i - 1)"
  have pl: "Suc ?p < length a" using ge Suc.prems by linarith
  have ip: "nat i = Suc ?p" using ge Suc.prems by linarith
  have mn: "min_at f a (Suc ?p) hi" using Suc.prems(4) unfolding ip .
  show ?case
  proof (cases "f (a ! Suc ?p) < f (a ! ?p)")
    case True
    let ?b = "iter_swap a (Suc ?p) ?p"
    have mb: "min_at f ?b ?p hi" using min_at_step_swap[OF mn pl True] .
    have IH: "case shaker_backward (\<lambda>x y. f x < f y) L (i - 1) (?b, c + 1) of
           (a', c') \<Rightarrow> min_at f a' (nat (L - 1)) hi"
      using Suc.hyps(2) Suc.prems ge by (intro Suc.hyps(1)[OF _ _ _ _ mb]) auto
    show ?thesis
      unfolding shaker_backward_unfold[OF ge Suc.prems(1)] using True IH by auto
  next
    case False
    have mb: "min_at f a ?p hi" using min_at_step_keep[OF mn False] .
    have IH: "case shaker_backward (\<lambda>x y. f x < f y) L (i - 1) (a, c + 1) of
           (a', c') \<Rightarrow> min_at f a' (nat (L - 1)) hi"
      using Suc.hyps(2) Suc.prems ge by (intro Suc.hyps(1)[OF _ _ _ _ mb]) auto
    show ?thesis
      unfolding shaker_backward_unfold[OF ge Suc.prems(1)] using False IH by auto
  qed
qed

lemma max_at_swap_below:
  assumes "max_at f a lo M" "Suc p \<le> M" "M < length a" "lo \<le> p" "f (a ! Suc p) < f (a ! p)"
  shows "max_at f (iter_swap a (Suc p) p) lo M"
proof -
  have pl: "p < length a" "Suc p < length a" using assms by auto
  have nth: "\<And>k. iter_swap a (Suc p) p ! k = (if k = p then a ! Suc p else if k = Suc p then a ! p else a ! k)"
    using pl by (simp add: nth_iter_swap)
  have "f (a ! p) \<le> f (a ! M)" using assms by (auto simp: max_at_def)
  with assms(5) have "Suc p \<noteq> M" by auto
  then have pM: "Suc p < M" "p \<noteq> M" using assms(2) by auto
  show ?thesis unfolding max_at_def
  proof (intro allI impI)
    fix k assume k: "lo \<le> k \<and> k \<le> M"
    have 1: "f (a ! k) \<le> f (a ! M)" using k assms(1) by (auto simp: max_at_def)
    have 2: "f (a ! p) \<le> f (a ! M)" using assms by (auto simp: max_at_def)
    have 3: "f (a ! Suc p) \<le> f (a ! M)" using assms by (auto simp: max_at_def)
    show "f (iter_swap a (Suc p) p ! k) \<le> f (iter_swap a (Suc p) p ! M)"
      using 1 2 3 pM by (auto simp: nth)
  qed
qed

lemma shaker_backward_keeps_max:
  assumes "1 \<le> L" "i \<le> int M" "M < length a" "lo \<le> nat (L - 1)" "max_at f a lo M"
  shows "case shaker_backward (\<lambda>x y. f x < f y) L i (a, c) of
           (a', c') \<Rightarrow> max_at f a' lo M"
  using assms
proof (induction "nat (i + 1 - L)" arbitrary: i a c)
  case 0
  then have "\<not> L \<le> i" by simp
  then show ?case using 0 by (simp add: shaker_backward.simps)
next
  case (Suc m)
  then have ge: "L \<le> i" by linarith
  let ?p = "nat (i - 1)"
  have pM: "Suc ?p \<le> M" using ge Suc.prems by linarith
  have plo: "lo \<le> ?p" using ge Suc.prems by linarith
  show ?case
  proof (cases "f (a ! Suc ?p) < f (a ! ?p)")
    case True
    let ?b = "iter_swap a (Suc ?p) ?p"
    have mb: "max_at f ?b lo M"
      using max_at_swap_below[OF Suc.prems(5) pM Suc.prems(3) plo True] .
    have IH: "case shaker_backward (\<lambda>x y. f x < f y) L (i - 1) (?b, c + 1) of
           (a', c') \<Rightarrow> max_at f a' lo M"
      using Suc.hyps(2) Suc.prems ge by (intro Suc.hyps(1)[OF _ _ _ _ _ mb]) auto
    show ?thesis
      unfolding shaker_backward_unfold[OF ge Suc.prems(1)] using True IH by auto
  next
    case False
    have IH: "case shaker_backward (\<lambda>x y. f x < f y) L (i - 1) (a, c + 1) of
           (a', c') \<Rightarrow> max_at f a' lo M"
      using Suc.hyps(2) Suc.prems ge by (intro Suc.hyps(1)) auto
    show ?thesis
      unfolding shaker_backward_unfold[OF ge Suc.prems(1)] using False IH by auto
  qed
qed

lemma left_done_step:
  assumes "left_done f a L" "right_done f a R" "swap_rel f L R a b" "min_at f b L R"
    "L < R" "R \<le> length a"
  shows "left_done f b (Suc L)"
  unfolding left_done_def
proof (intro allI impI)
  fix p q assume h: "p < Suc L \<and> p \<le> q \<and> q < length b"
  have len: "length b = length a" using assms(3) by (simp add: swap_rel_def)
  have out: "\<And>k. k < L \<or> R \<le> k \<Longrightarrow> k < length a \<Longrightarrow> b ! k = a ! k"
    using assms(3) by (simp add: swap_rel_def)
  have inn: "\<And>k. L \<le> k \<Longrightarrow> k < R \<Longrightarrow> \<exists>k'. L \<le> k' \<and> k' < R \<and> b ! k = a ! k'"
    using assms(3) by (simp add: swap_rel_def)
  have L: "\<And>p q. p < L \<Longrightarrow> p \<le> q \<Longrightarrow> q < length a \<Longrightarrow> f (a ! p) \<le> f (a ! q)"
    using assms(1) by (simp add: left_done_def)
  have R: "\<And>p q. R \<le> q \<Longrightarrow> p \<le> q \<Longrightarrow> q < length a \<Longrightarrow> f (a ! p) \<le> f (a ! q)"
    using assms(2) by (simp add: right_done_def)
  show "f (b ! p) \<le> f (b ! q)"
  proof (cases "p < L")
    case True
    then have bp: "b ! p = a ! p" using out[of p] h len by auto
    show ?thesis
    proof (cases "L \<le> q \<and> q < R")
      case True
      then obtain q' where q': "L \<le> q'" "q' < R" "b ! q = a ! q'" using inn[of q] by blast
      then show ?thesis using L[of p q'] \<open>p < L\<close> assms(6) bp by auto
    next
      case False
      then have "b ! q = a ! q" using out[of q] h len by auto
      then show ?thesis using L[of p q] \<open>p < L\<close> h len bp by auto
    qed
  next
    case False
    then have pL: "p = L" using h by auto
    show ?thesis
    proof (cases "q < R")
      case True
      then show ?thesis using assms(4) h pL by (auto simp: min_at_def)
    next
      case False
      then have bq: "b ! q = a ! q" using out[of q] h len by auto
      obtain p' where p': "L \<le> p'" "p' < R" "b ! L = a ! p'" using inn[of L] assms(5) by blast
      then show ?thesis using R[of q p'] False h len bq pL by auto
    qed
  qed
qed

lemma right_done_step:
  assumes "left_done f a L" "right_done f a R" "swap_rel f L R a b" "max_at f b L (R - 1)"
    "L < R" "R \<le> length a"
  shows "right_done f b (R - 1)"
  unfolding right_done_def
proof (intro allI impI)
  fix p q assume h: "R - 1 \<le> q \<and> p \<le> q \<and> q < length b"
  have len: "length b = length a" using assms(3) by (simp add: swap_rel_def)
  have out: "\<And>k. k < L \<or> R \<le> k \<Longrightarrow> k < length a \<Longrightarrow> b ! k = a ! k"
    using assms(3) by (simp add: swap_rel_def)
  have inn: "\<And>k. L \<le> k \<Longrightarrow> k < R \<Longrightarrow> \<exists>k'. L \<le> k' \<and> k' < R \<and> b ! k = a ! k'"
    using assms(3) by (simp add: swap_rel_def)
  have L: "\<And>p q. p < L \<Longrightarrow> p \<le> q \<Longrightarrow> q < length a \<Longrightarrow> f (a ! p) \<le> f (a ! q)"
    using assms(1) by (simp add: left_done_def)
  have R: "\<And>p q. R \<le> q \<Longrightarrow> p \<le> q \<Longrightarrow> q < length a \<Longrightarrow> f (a ! p) \<le> f (a ! q)"
    using assms(2) by (simp add: right_done_def)
  show "f (b ! p) \<le> f (b ! q)"
  proof (cases "R \<le> q")
    case True
    then have bq: "b ! q = a ! q" using out[of q] h len by auto
    show ?thesis
    proof (cases "L \<le> p \<and> p < R")
      case pin: True
      then obtain p' where p': "L \<le> p'" "p' < R" "b ! p = a ! p'" using inn[of p] by blast
      then show ?thesis using R[of q p'] True h len bq by auto
    next
      case False
      then have "b ! p = a ! p" using out[of p] h len by auto
      then show ?thesis using R[of q p] True h len bq by auto
    qed
  next
    case False
    then have qR: "q = R - 1" using h by auto
    show ?thesis
    proof (cases "L \<le> p")
      case True
      then show ?thesis using assms(4) h qR by (auto simp: max_at_def)
    next
      case False
      then have bp: "b ! p = a ! p" using out[of p] h len by auto
      have "L \<le> R - 1" "R - 1 < R" using assms(5) by auto
      then obtain q' where q': "L \<le> q'" "q' < R" "b ! (R - 1) = a ! q'"
        using inn[of "R - 1"] by blast
      then show ?thesis using L[of p q'] False assms(6) bp qR by auto
    qed
  qed
qed

lemma done_sorted:
  assumes "left_done f a L" "right_done f a R" "R \<le> L"
  shows "sorted_upto f a (length a)"
  unfolding sorted_upto_def
proof (intro allI impI)
  fix p q assume h: "p \<le> q \<and> q < length a"
  show "f (a ! p) \<le> f (a ! q)"
  proof (cases "p < L")
    case True
    then show ?thesis using assms(1) h by (auto simp: left_done_def)
  next
    case False
    then have "R \<le> q" using assms(3) h by auto
    then show ?thesis using assms(2) h by (auto simp: right_done_def)
  qed
qed

lemma adjacent_sorted_upto:
  fixes f :: "'a \<Rightarrow> 'k::linorder"
  assumes "\<forall>p. Suc p < n \<longrightarrow> f (a ! p) \<le> f (a ! Suc p)"
  shows "sorted_upto f a n"
  unfolding sorted_upto_def
proof (intro allI impI)
  fix p q assume h: "p \<le> q \<and> q < n"
  then obtain d where d: "q = p + d" using le_Suc_ex by blast
  have "p + d < n \<Longrightarrow> f (a ! p) \<le> f (a ! (p + d))"
  proof (induction d)
    case 0 show ?case by simp
  next
    case (Suc d)
    then have "f (a ! p) \<le> f (a ! (p + d))" by simp
    moreover have "f (a ! (p + d)) \<le> f (a ! Suc (p + d))" using assms Suc.prems by simp
    ultimately show ?case by simp
  qed
  then show "f (a ! p) \<le> f (a ! q)" using h d by simp
qed

lemma shaker_loop_sorted:
  fixes f :: "'a \<Rightarrow> 'k::linorder"
  assumes "0 \<le> left" "right < int (length a)" "- 1 \<le> right"
    "left_done f a (nat left)" "right_done f a (nat (right + 1))"
    "ns \<longrightarrow> left = 0 \<and> right = int (length a) - 1"
  shows "case shaker_loop (\<lambda>x y. f x < f y) left right (a, ns, c) of
           (a', c') \<Rightarrow> sorted_upto f a' (length a) \<and> swap_rel f 0 (length a) a a'"
  using assms
proof (induction "nat (right + 1 - left)" arbitrary: left right a ns c rule: less_induct)
  case less
  note prems = less.prems
  show ?case
  proof (cases "left \<le> right")
    case False
    then have "nat (right + 1) \<le> nat left" by simp
    from done_sorted[OF prems(4,5) this] False show ?thesis
      by (simp add: shaker_loop.simps swap_rel_refl)
  next
  case le: True
  let ?L = "nat left" and ?R = "nat (right + 1)"
  have LR: "?L < ?R" "?R \<le> length a" using le prems by auto
  obtain a1 ns1 c1 where fwd:
    "shaker_forward (\<lambda>x y. f x < f y) right left (a, ns, c) = (a1, ns1, c1)"
    by (cases "shaker_forward (\<lambda>x y. f x < f y) right left (a, ns, c)") auto
  have "case shaker_forward (\<lambda>x y. f x < f y) right left (a, ns, c) of
           (a', ns', c') \<Rightarrow> swap_rel f ?L ?R a a'"
    using prems(1,2) le by (intro shaker_forward_rel) auto
  then have rel1: "swap_rel f ?L ?R a a1" using fwd by simp
  have len1: "length a1 = length a" using rel1 by (simp add: swap_rel_def)
  have max1: "max_at f a1 ?L (nat right)"
  proof -
    have "max_at f a ?L (nat left)" by (auto simp: max_at_def)
    from shaker_forward_max[OF prems(1,2) le this, of ns c] fwd show ?thesis by simp
  qed
  show ?thesis
  proof (cases ns1)
    case True
    from shaker_forward_no_swaps[OF prems(1), where f=f and R=right and a=a and ns=ns and c=c]
      fwd True
    have ns: "ns" and eq: "a1 = a"
      and adj: "\<forall>p. left \<le> int p \<and> int p < right \<longrightarrow> f (a ! p) \<le> f (a ! Suc p)"
      by auto
    have bounds: "left = 0" "right = int (length a) - 1" using ns prems(6) by auto
    have "\<forall>p. Suc p < length a \<longrightarrow> f (a ! p) \<le> f (a ! Suc p)"
      using adj bounds by auto
    then have srt: "sorted_upto f a (length a)" by (rule adjacent_sorted_upto)
    have "shaker_loop (\<lambda>x y. f x < f y) left right (a, ns, c) = (a1, c1)"
      using le fwd True by (subst shaker_loop.simps) simp
    then show ?thesis using srt eq by (simp add: swap_rel_refl)
  next
    case False
    obtain a2 c2 where bwd:
      "shaker_backward (\<lambda>x y. f x < f y) (left + 1) right (a1, c1) = (a2, c2)"
      by (cases "shaker_backward (\<lambda>x y. f x < f y) (left + 1) right (a1, c1)") auto
    have rl: "right < int (length a1)" using prems len1 by simp
    have "case shaker_backward (\<lambda>x y. f x < f y) (left + 1) right (a1, c1) of
           (a', c') \<Rightarrow> swap_rel f ?L ?R a1 a'"
      using prems(1) le rl by (intro shaker_backward_rel) auto
    then have rel2: "swap_rel f ?L ?R a1 a2" using bwd by simp
    have len2: "length a2 = length a" using rel2 len1 by (simp add: swap_rel_def)
    have rel: "swap_rel f ?L ?R a a2" using swap_rel_trans[OF rel1 rel2] .
    have min2: "min_at f a2 ?L ?R"
    proof -
      have "min_at f a1 (nat right) ?R"
        unfolding min_at_def
      proof (intro allI impI)
        fix p assume "nat right \<le> p \<and> p < ?R"
        then have "p = nat right" using le prems(1) by linarith
        then show "f (a1 ! nat right) \<le> f (a1 ! p)" by simp
      qed
      then have "case shaker_backward (\<lambda>x y. f x < f y) (left + 1) right (a1, c1) of
           (a', c') \<Rightarrow> min_at f a' (nat (left + 1 - 1)) ?R"
        using prems(1) le rl by (intro shaker_backward_min) auto
      then show ?thesis using bwd by simp
    qed
    have max2: "max_at f a2 ?L (?R - 1)"
    proof -
      have R1: "?R - 1 = nat right" using le prems(1) by linarith
      have "nat right < length a1" using rl le prems(1) by linarith
      then have "case shaker_backward (\<lambda>x y. f x < f y) (left + 1) right (a1, c1) of
           (a', c') \<Rightarrow> max_at f a' ?L (nat right)"
        using prems(1) le max1 by (intro shaker_backward_keeps_max) auto
      then show ?thesis unfolding R1 using bwd by simp
    qed
    have L2: "left_done f a2 (Suc ?L)"
      using left_done_step[OF prems(4,5) rel min2 LR] .
    have R2: "right_done f a2 (?R - 1)"
      using right_done_step[OF prems(4,5) rel max2 LR] .
    have L2': "left_done f a2 (nat (left + 1))"
      using L2 prems(1) by (simp add: nat_add_distrib)
    have R2': "right_done f a2 (nat (right - 1 + 1))"
    proof -
      have "?R - 1 = nat (right - 1 + 1)" using le prems(1) by linarith
      then show ?thesis using R2 by simp
    qed
    have IH: "case shaker_loop (\<lambda>x y. f x < f y) (left + 1) (right - 1) (a2, False, c2) of
           (a', c') \<Rightarrow> sorted_upto f a' (length a2) \<and> swap_rel f 0 (length a2) a2 a'"
    proof (rule less.hyps[OF _ _ _ _ L2' R2'])
      show "nat (right - 1 + 1 - (left + 1)) < nat (right + 1 - left)" using le by linarith
      show "0 \<le> left + 1" using prems(1) by simp
      show "right - 1 < int (length a2)" using prems(2) len2 by simp
      show "- 1 \<le> right - 1" using le prems(1) by simp
      show "False \<longrightarrow> left + 1 = 0 \<and> right - 1 = int (length a2) - 1" by simp
    qed
    have rel0: "swap_rel f 0 (length a) a a2"
      using LR by (intro swap_rel_mono[OF rel]) auto
    have unfold: "shaker_loop (\<lambda>x y. f x < f y) left right (a, ns, c)
        = shaker_loop (\<lambda>x y. f x < f y) (left + 1) (right - 1) (a2, False, c2)"
      using le fwd bwd False by (subst shaker_loop.simps) simp
    show ?thesis unfolding unfold using IH rel0 len2
      by (auto intro: swap_rel_trans)
  qed
  qed
qed

lemma shaker_sort_rel:
  fixes f :: "'a \<Rightarrow> 'k::linorder"
  shows "case shaker_sort (\<lambda>x y. f x < f y) a of
     (a', c') \<Rightarrow> sorted_upto f a' (length a) \<and> swap_rel f 0 (length a) a a'"
proof -
  have 1: "left_done f a (nat 0)" by (simp add: left_done_def)
  have 2: "right_done f a (nat (int (length a) - 1 + 1))" by (auto simp: right_done_def)
  show ?thesis
    unfolding shaker_sort_def
    by (rule shaker_loop_sorted[OF _ _ _ 1 2]) auto
qed

lemma shaker_sort_sorted:
  fixes f :: "'a \<Rightarrow> 'k::linorder"
  shows "sorted (map f (fst (shaker_sort (\<lambda>x y. f x < f y) a)))"
  using shaker_sort_rel[of f a]
  by (auto simp: swap_rel_def split: prod.splits intro!: sorted_upto_sorted)

lemma shaker_sort_mset:
  fixes f :: "'a \<Rightarrow> 'k::linorder"
  shows "mset (fst (shaker_sort (\<lambda>x y. f x < f y) a)) = mset a"
  using shaker_sort_rel[of f a]
  by (auto simp: swap_rel_def split: prod.splits)

lemma shaker_sort_stable:
  fixes f :: "'a \<Rightarrow> 'k::linorder"
  shows "filter (\<lambda>x. f x = k) (fst (shaker_sort (\<lambda>x y. f x < f y) a)) = filter (\<lambda>x. f x = k) a"
  using shaker_sort_rel[of f a]
  by (auto simp: swap_rel_def split: prod.splits)

section \<open>Merge and merge sort\<close>

lemma merge_loop_lists:
  "case merge_loop cmp l r i j (res, c) of
     (res', i', j', c') \<Rightarrow>
        res' @ drop i' l @ drop j' r = res @ merge_lists cmp (drop i l) (drop j r)"
proof (induction "(length l - i) + (length r - j)" arbitrary: i j res c rule: less_induct)
  case less
  show ?case
  proof (cases "i < length l \<and> j < length r")
    case False
    then have "drop i l = [] \<or> drop j r = []" by auto
    then have "merge_lists cmp (drop i l) (drop j r) = drop i l @ drop j r"
      by (cases "drop i l") auto
    then show ?thesis using False by (subst merge_loop.simps) auto
  next
    case True
    then have dl: "drop i l = l ! i # drop (Suc i) l" and dr: "drop j r = r ! j # drop (Suc j) r"
      by (simp_all add: Cons_nth_drop_Suc)
    show ?thesis
    proof (cases "cmp (l ! i) (r ! j)")
      case c: True
      have IH: "case merge_loop cmp l r (i + 1) j (res @ [l ! i], c + 1) of
          (res', i', j', c') \<Rightarrow>
            res' @ drop i' l @ drop j' r
              = (res @ [l ! i]) @ merge_lists cmp (drop (i + 1) l) (drop j r)"
        using True by (intro less.hyps) auto
      have "merge_lists cmp (drop i l) (drop j r)
          = l ! i # merge_lists cmp (drop (Suc i) l) (drop j r)"
        using c by (subst dl, subst (1 2) dr) simp
      then show ?thesis
        using True c IH by (subst merge_loop.simps) (auto split: prod.splits)
    next
      case c: False
      have IH: "case merge_loop cmp l r i (j + 1) (res @ [r ! j], c + 1) of
          (res', i', j', c') \<Rightarrow>
            res' @ drop i' l @ drop j' r
              = (res @ [r ! j]) @ merge_lists cmp (drop i l) (drop (j + 1) r)"
        using True by (intro less.hyps) auto
      have "merge_lists cmp (drop i l) (drop j r)
          = r ! j # merge_lists cmp (drop i l) (drop (Suc j) r)"
        using c by (subst (1 2) dl, subst dr) simp
      then show ?thesis
        using True c IH by (subst merge_loop.simps) (auto split: prod.splits)
    qed
  qed
qed

lemma merge_eq_merge_lists: "fst (merge cmp l r) = merge_lists cmp l r"
  using merge_loop_lists[where cmp=cmp and l=l and r=r and i=0 and j=0 and res="[]" and c=0]
  by (auto simp: merge_def split: prod.splits)

lemma mset_merge_lists: "mset (merge_lists cmp xs ys) = mset xs + mset ys"
  by (induction cmp xs ys rule: merge_lists.induct) auto

lemma set_merge_lists: "set (merge_lists cmp xs ys) = set xs \<union> set ys"
  by (induction cmp xs ys rule: merge_lists.induct) auto

lemma sorted_merge_lists:
  fixes f :: "'a \<Rightarrow> 'k::linorder"
  assumes "sorted (map f xs)" "sorted (map f ys)"
  shows "sorted (map f (merge_lists (\<lambda>x y. f x < f y) xs ys))"
  using assms
proof (induction "\<lambda>x y. f x < f y" xs ys rule: merge_lists.induct)
  case (3 x xs y ys)
  show ?case
  proof (cases "f x < f y")
    case True
    then have "\<forall>z\<in>set (merge_lists (\<lambda>x y. f x < f y) xs (y # ys)). f x \<le> f z"
      using 3(3,4) by (auto simp: set_merge_lists)
    then show ?thesis using True 3 by auto
  next
    case False
    then have "\<forall>z\<in>set (merge_lists (\<lambda>x y. f x < f y) (x # xs) ys). f y \<le> f z"
      using 3(3,4) by (auto simp: set_merge_lists)
    then show ?thesis using False 3 by auto
  qed
qed simp_all

lemma merge_sort_one: "merge_sort cmp [x] = Some ([x], 0)"
  by (subst merge_sort.simps) simp

lemma merge_sort_returns:
  "a \<noteq> [] \<Longrightarrow> \<exists>res c. merge_sort cmp a = Some (res, c)"
proof (induction "length a" arbitrary: a rule: less_induct)
  case less
  show ?case
  proof (cases "length a = 1")
    case True
    then show ?thesis by (subst merge_sort.simps) simp
  next
    case False
    moreover have "length a \<noteq> 0" using less.prems by simp
    ultimately have n: "2 \<le> length a" by linarith
    let ?mid = "length a div 2"
    have "take ?mid a \<noteq> []" "length (take ?mid a) < length a" using n by auto
    then obtain l c1 where l: "merge_sort cmp (take ?mid a) = Some (l, c1)"
      using less.hyps by blast
    have "drop ?mid a \<noteq> []" "length (drop ?mid a) < length a" using n by auto
    then obtain r c2 where r: "merge_sort cmp (drop ?mid a) = Some (r, c2)"
      using less.hyps by blast
    show ?thesis using False l r
      by (subst merge_sort.simps) (auto split: prod.splits)
  qed
qed

lemma merge_sort_sorts:
  fixes f :: "'a \<Rightarrow> 'k::linorder"
  assumes "a \<noteq> []"
  shows "\<exists>res c. merge_sort (\<lambda>x y. f x < f y) a = Some (res, c)
           \<and> sorted (map f res) \<and> mset res = mset a"
  using assms
proof (induction "length a" arbitrary: a rule: less_induct)
  case less
  show ?case
  proof (cases "length a = 1")
    case True
    then obtain x where "a = [x]" by (cases a) auto
    then show ?thesis by (subst merge_sort.simps) simp
  next
    case False
    moreover have "length a \<noteq> 0" using less.prems by simp
    ultimately have n: "2 \<le> length a" by linarith
    let ?mid = "length a div 2"
    have "take ?mid a \<noteq> []" "length (take ?mid a) < length a" using n by auto
    then obtain l c1 where l: "merge_sort (\<lambda>x y. f x < f y) (take ?mid a) = Some (l, c1)"
      "sorted (map f l)" "mset l = mset (take ?mid a)"
      using less.hyps by blast
    have "drop ?mid a \<noteq> []" "length (drop ?mid a) < length a" using n by auto
    then obtain r c2 where r: "merge_sort (\<lambda>x y. f x < f y) (drop ?mid a) = Some (r, c2)"
      "sorted (map f r)" "mset r = mset (drop ?mid a)"
      using less.hyps by blast
    obtain res c3 where m: "merge (\<lambda>x y. f x < f y) l r = (res, c3)"
      by (cases "merge (\<lambda>x y. f x < f y) l r") auto
    then have res: "res = merge_lists (\<lambda>x y. f x < f y) l r"
      using merge_eq_merge_lists[of "\<lambda>x y. f x < f y" l r] by simp
    have srt: "sorted (map f res)" unfolding res using l(2) r(2) by (rule sorted_merge_lists)
    have "mset res = mset (take ?mid a) + mset (drop ?mid a)"
      unfolding res by (simp add: mset_merge_lists l(3) r(3))
    also have "\<dots> = mset (take ?mid a @ drop ?mid a)" by (simp only: mset_append)
    also have "\<dots> = mset a" by (simp only: append_take_drop_id)
    finally have ms: "mset res = mset a" .
    have "merge_sort (\<lambda>x y. f x < f y) a = Some (res, c1 + c2 + c3)"
      using False l(1) r(1) m by (subst merge_sort.simps) simp
    then show ?thesis using srt ms by blast
  qed
qed

lemma filter_merge_lists:
  fixes f :: "'a \<Rightarrow> 'k::linorder"
  assumes "sorted (map f ys)"
  shows "filter (\<lambda>x. f x = k) (merge_lists (\<lambda>x y. f x < f y) xs ys)
       = filter (\<lambda>x. f x = k) ys @ filter (\<lambda>x. f x = k) xs"
  using assms
proof (induction "\<lambda>x y. f x < f y" xs ys rule: merge_lists.induct)
  case (3 x xs y ys)
  show ?case
  proof (cases "f x < f y")
    case True
    have IH: "filter (\<lambda>x. f x = k) (merge_lists (\<lambda>x y. f x < f y) xs (y # ys))
        = filter (\<lambda>x. f x = k) (y # ys) @ filter (\<lambda>x. f x = k) xs"
      using 3(1)[OF True 3(3)] .
    show ?thesis
    proof (cases "f x = k")
      case k: True
      have "\<forall>z\<in>set (y # ys). f z \<noteq> k" using True k 3(3) by auto
      then have "filter (\<lambda>x. f x = k) (y # ys) = []" by (simp only: filter_empty_conv)
      then show ?thesis using True k IH by simp
    next
      case False
      then show ?thesis using True IH by simp
    qed
  next
    case False
    have "sorted (map f ys)" using 3(3) by simp
    from 3(2)[OF False this] False show ?thesis by simp
  qed
qed simp_all

lemma merge_sort_reverses:
  fixes f :: "'a \<Rightarrow> 'k::linorder"
  assumes "a \<noteq> []"
  shows "\<exists>res c. merge_sort (\<lambda>x y. f x < f y) a = Some (res, c)
           \<and> sorted (map f res)
           \<and> (\<forall>k. filter (\<lambda>x. f x = k) res = rev (filter (\<lambda>x. f x = k) a))"
  using assms
proof (induction "length a" arbitrary: a rule: less_induct)
  case less
  show ?case
  proof (cases "length a = 1")
    case True
    then obtain x where a: "a = [x]" by (cases a) auto
    show ?thesis unfolding a by (subst merge_sort.simps) simp
  next
    case False
    moreover have "length a \<noteq> 0" using less.prems by simp
    ultimately have n: "2 \<le> length a" by linarith
    let ?mid = "length a div 2"
    have "take ?mid a \<noteq> []" "length (take ?mid a) < length a" using n by auto
    then obtain l c1 where l: "merge_sort (\<lambda>x y. f x < f y) (take ?mid a) = Some (l, c1)"
      "sorted (map f l)"
      "\<forall>k. filter (\<lambda>x. f x = k) l = rev (filter (\<lambda>x. f x = k) (take ?mid a))"
      using less.hyps by blast
    have "drop ?mid a \<noteq> []" "length (drop ?mid a) < length a" using n by auto
    then obtain r c2 where r: "merge_sort (\<lambda>x y. f x < f y) (drop ?mid a) = Some (r, c2)"
      "sorted (map f r)"
      "\<forall>k. filter (\<lambda>x. f x = k) r = rev (filter (\<lambda>x. f x = k) (drop ?mid a))"
      using less.hyps by blast
    obtain res c3 where m: "merge (\<lambda>x y. f x < f y) l r = (res, c3)"
      by (cases "merge (\<lambda>x y. f x < f y) l r") auto
    then have res: "res = merge_lists (\<lambda>x y. f x < f y) l r"
      using merge_eq_merge_lists[of "\<lambda>x y. f x < f y" l r] by simp
    have srt: "sorted (map f res)" unfolding res using l(2) r(2) by (rule sorted_merge_lists)
    have fl: "filter (\<lambda>x. f x = k) res = rev (filter (\<lambda>x. f x = k) a)" for k
    proof -
      have "filter (\<lambda>x. f x = k) res
          = rev (filter (\<lambda>x. f x = k) (drop ?mid a)) @ rev (filter (\<lambda>x. f x = k) (take ?mid a))"
        unfolding res using filter_merge_lists[OF r(2), of k l] l(3) r(3) by simp
      also have "\<dots> = rev (filter (\<lambda>x. f x = k) (take ?mid a @ drop ?mid a))"
        by (simp only: filter_append rev_append)
      also have "\<dots> = rev (filter (\<lambda>x. f x = k) a)" by (simp only: append_take_drop_id)
      finally show ?thesis .
    qed
    have "merge_sort (\<lambda>x y. f x < f y) a = Some (res, c1 + c2 + c3)"
      using False l(1) r(1) m by (subst merge_sort.simps) simp
    then show ?thesis using srt fl by blast
  qed
qed

lemma merge_sort_Nil_aux:
  assumes "merge_sort cmp a = Some y" shows "a \<noteq> []"
proof (rule merge_sort.raw_induct[where P = "\<lambda>cmp a y. a \<noteq> []", OF _ assms])
  fix ms :: "('a \<Rightarrow> 'a \<Rightarrow> bool) \<Rightarrow> 'a list \<Rightarrow> ('a list \<times> nat) option" and cmp a y
  assume IH: "\<And>cmp a y. ms cmp a = Some y \<Longrightarrow> a \<noteq> []"
  assume eq: "(if length a = 1 then Some (a, 0)
      else
        let mid = length a div 2 in
        Option.bind (ms cmp (take mid a)) (\<lambda>(l, c1).
        Option.bind (ms cmp (drop mid a)) (\<lambda>(r, c2).
        case merge cmp l r of (res, c3) \<Rightarrow> Some (res, c1 + c2 + c3)))) = Some y"
  show "a \<noteq> []"
  proof
    assume "a = []"
    with eq obtain z where "ms cmp [] = Some z"
      by (cases "ms cmp []") simp_all
    from IH[OF this] show False by simp
  qed
qed

lemma merge_sort_Nil: "merge_sort cmp [] = None"
  using merge_sort_Nil_aux[of cmp "[]"] by (cases "merge_sort cmp []") auto

section \<open>The harness: files, paths and the loop\<close>

lemma read_csv_world:
  "files (snd (read_csv p w)) = files w" "writable (snd (read_csv p w)) = writable w"
  "ticks (snd (read_csv p w)) = ticks w" "reads (snd (read_csv p w)) = reads w"
  "cout (snd (read_csv p w)) = cout w"
  by (auto simp: read_csv_def split: option.splits)

lemma read_csv_cong:
  "files w' p = files w p \<Longrightarrow> fst (read_csv p w') = fst (read_csv p w)"
  by (auto simp: read_csv_def split: option.splits)

lemma write_csv_world:
  "writable (write_csv p data w) = writable w" "ticks (write_csv p data w) = ticks w"
  "reads (write_csv p data w) = reads w" "cout (write_csv p data w) = cout w"
  "files (write_csv p data w)
     = (if writable w p then (files w)(p \<mapsto> concat (map csv_line data)) else files w)"
  by (auto simp: write_csv_def)

lemma digit_value_nth: "m < 10 \<Longrightarrow> digit_value (''0123456789'' ! m) = int m"
proof -
  assume "m < 10"
  then have "m = 0 \<or> m = 1 \<or> m = 2 \<or> m = 3 \<or> m = 4 \<or> m = 5 \<or> m = 6
    \<or> m = 7 \<or> m = 8 \<or> m = 9" by arith
  then show ?thesis by (elim disjE) (simp_all add: digit_value_def)
qed

lemma digits_value_snoc: "digits_value (ds @ [ch]) = 10 * digits_value ds + digit_value ch"
  by (simp add: digits_value_def)

lemma digits_value_digits: "digits_value (digits n) = int n"
proof (induction n rule: digits.induct)
  case (1 n)
  show ?case
  proof (cases "n < 10")
    case True
    then show ?thesis
      by (subst digits.simps) (simp add: digits_value_def digit_value_nth)
  next
    case False
    have "digits_value (digits n)
        = 10 * digits_value (digits (n div 10)) + digit_value (''0123456789'' ! (n mod 10))"
      using False by (subst digits.simps) (simp add: digits_value_snoc)
    also have "\<dots> = 10 * int (n div 10) + int (n mod 10)"
      using 1[OF False] by (simp add: digit_value_nth)
    also have "\<dots> = int n" by (simp add: zdiv_int zmod_int)
    finally show ?thesis .
  qed
qed

lemma to_string_inject:
  assumes "0 \<le> m" "0 \<le> n" "to_string m = to_string n" shows "m = n"
proof -
  have "digits (nat m) = digits (nat n)" using assms by (simp add: to_string_def)
  then have "digits_value (digits (nat m)) = digits_value (digits (nat n))" by simp
  then show ?thesis using assms(1,2) by (simp add: digits_value_digits)
qed

lemma out_path_inject:
  assumes "0 \<le> m" "0 \<le> n" "out_path m = out_path n"
  shows "m = n"
proof -
  have "to_string m @ ''.csv'' = to_string n @ ''.csv''"
    using assms(3) by (simp add: out_path_def)
  moreover have "length (to_string m @ ''.csv'') = length (to_string n @ ''.csv'')"
    using calculation by simp
  ultimately have "to_string m = to_string n" by simp
  then show ?thesis using assms(1,2) by (rule to_string_inject[rotated 2])
qed

lemma in_path_not_out_path: "in_path a \<noteq> out_path b"
  by (simp add: in_path_def out_path_def)

lemma get_time_step_runs:
  assumes ld: "fst (read_csv (in_path i) w) = Inr data"
    and st: "sort_by_name std_sort algo data = Inr data'"
    and len: "int (length (snd xy)) = i - 1"
  shows "\<exists>w'. get_time_step std_sort show_double algo i xy w
           = (Inr (fst xy @ [real (length data')],
                   snd xy @ [ticks w (reads w + 1) - ticks w (reads w)]), w')
         \<and> ticks w' = ticks w \<and> reads w' = reads w + 2 \<and> writable w' = writable w
         \<and> files w' = (if writable w (out_path i)
                        then (files w)(out_path i \<mapsto> concat (map csv_line data'))
                        else files w)"
proof -
  obtain w1 where rd: "read_csv (in_path i) w = (Inr data, w1)"
    using ld by (cases "read_csv (in_path i) w") auto
  have w1: "files w1 = files w" "writable w1 = writable w" "ticks w1 = ticks w"
    "reads w1 = reads w"
    using read_csv_world[of "in_path i" w] rd by simp_all
  have n: "nat (i - 1) = length (snd xy)" using len by linarith
  have at: "vector_at (snd xy @ [t]) (i - 1) = Inr t" for t :: real
    using len by (simp add: vector_at_def n)
  let ?w4 = "write_csv (out_path i) data' (w1\<lparr>reads := Suc (Suc (reads w))\<rparr>)"
  have step: "get_time_step std_sort show_double algo i xy w
      = (Inr (fst xy @ [real (length data')],
              snd xy @ [ticks w (reads w + 1) - ticks w (reads w)]),
         ?w4\<lparr>cout := cout ?w4 @ algo @ '': dataset_n='' @ to_string i
                  @ '' size='' @ to_string (int (length data'))
                  @ '' time='' @ show_double (ticks w (reads w + 1) - ticks w (reads w))
                  @ [newline]\<rparr>)"
    unfolding get_time_step_def by (simp add: rd st now_def w1 at Let_def)
  show ?thesis
    unfolding step by (intro exI conjI, rule refl) (simp_all add: write_csv_world w1)
qed

lemma upt_Suc_shift: "[0..<Suc m] = 0 # map Suc [0..<m]"
  by (simp add: upt_conv_Cons map_Suc_upt del: upt_Suc)

lemma get_time_loop_runs:
  assumes "\<forall>k. i \<le> k \<and> k \<le> j \<longrightarrow> fst (read_csv (in_path k) w) = Inr (d k)"
    and "\<forall>k. i \<le> k \<and> k \<le> j \<longrightarrow> sort_by_name std_sort algo (d k) = Inr (s k)"
    and "int (length (snd xy)) = i - 1"
    and "j < 2147483647"
  shows "\<exists>w'. get_time_loop std_sort show_double j algo i xy w
           = (Inr (fst xy @ map (\<lambda>k. real (length (s k))) [i..j],
                   snd xy @ map (\<lambda>n. ticks w (reads w + 2 * n + 1) - ticks w (reads w + 2 * n))
                              [0..<nat (j + 1 - i)]), w')
         \<and> (\<forall>k. i \<le> k \<and> k \<le> j \<and> writable w (out_path k)
                \<longrightarrow> files w' (out_path k) = Some (concat (map csv_line (s k))))
         \<and> (\<forall>p. (\<forall>k. i \<le> k \<and> k \<le> j \<longrightarrow> p \<noteq> out_path k) \<longrightarrow> files w' p = files w p)
         \<and> ticks w' = ticks w \<and> writable w' = writable w"
  using assms
proof (induction "nat (j + 1 - i)" arbitrary: i xy w)
  case 0
  then have "\<not> i \<le> j" by simp
  then show ?case by (subst get_time_loop.simps) auto
next
  case (Suc m)
  then have le: "i \<le> j" by linarith
  have i0: "0 \<le> i" using Suc.prems(3) by linarith
  have ld: "fst (read_csv (in_path i) w) = Inr (d i)" using Suc.prems(1) le by simp
  have st: "sort_by_name std_sort algo (d i) = Inr (s i)" using Suc.prems(2) le by simp
  let ?xy1 = "(fst xy @ [real (length (s i))],
               snd xy @ [ticks w (reads w + 1) - ticks w (reads w)])"
  obtain w1 where step: "get_time_step std_sort show_double algo i xy w = (Inr ?xy1, w1)"
    and w1: "ticks w1 = ticks w" "reads w1 = reads w + 2" "writable w1 = writable w"
    and f1: "files w1 = (if writable w (out_path i)
                         then (files w)(out_path i \<mapsto> concat (map csv_line (s i)))
                         else files w)"
    using get_time_step_runs[OF ld st Suc.prems(3), of show_double] by blast
  have same_in: "files w1 (in_path k) = files w (in_path k)" for k
    using f1 in_path_not_out_path[of k i] by auto
  have ld1: "\<forall>k. i + 1 \<le> k \<and> k \<le> j \<longrightarrow> fst (read_csv (in_path k) w1) = Inr (d k)"
    using Suc.prems(1) read_csv_cong[OF same_in] by simp
  have st1: "\<forall>k. i + 1 \<le> k \<and> k \<le> j \<longrightarrow> sort_by_name std_sort algo (d k) = Inr (s k)"
    using Suc.prems(2) by simp
  have len1: "int (length (snd ?xy1)) = i + 1 - 1" using Suc.prems(3) by simp
  have m: "m = nat (j + 1 - (i + 1))" using Suc.hyps(2) by linarith
  obtain w' where loop: "get_time_loop std_sort show_double j algo (i + 1) ?xy1 w1
           = (Inr (fst ?xy1 @ map (\<lambda>k. real (length (s k))) [i + 1..j],
                   snd ?xy1 @ map (\<lambda>n. ticks w1 (reads w1 + 2 * n + 1) - ticks w1 (reads w1 + 2 * n))
                              [0..<nat (j + 1 - (i + 1))]), w')"
    and wr: "\<forall>k. i + 1 \<le> k \<and> k \<le> j \<and> writable w1 (out_path k)
                \<longrightarrow> files w' (out_path k) = Some (concat (map csv_line (s k)))"
    and fr: "\<forall>p. (\<forall>k. i + 1 \<le> k \<and> k \<le> j \<longrightarrow> p \<noteq> out_path k) \<longrightarrow> files w' p = files w1 p"
    and w': "ticks w' = ticks w1" "writable w' = writable w1"
    using Suc.hyps(1)[OF m ld1 st1 len1 Suc.prems(4)] by blast
  have unfold: "get_time_loop std_sort show_double j algo i xy w
      = get_time_loop std_sort show_double j algo (i + 1) ?xy1 w1"
    using le step Suc.prems(4) by (subst get_time_loop.simps) simp
  have xs: "fst ?xy1 @ map (\<lambda>k. real (length (s k))) [i + 1..j]
      = fst xy @ map (\<lambda>k. real (length (s k))) [i..j]"
    using le by (simp add: upto_rec1[of i j])
  have nm: "nat (j + 1 - i) = Suc m" "nat (j + 1 - (i + 1)) = m"
    using Suc.hyps(2) m by simp_all
  have ys: "snd ?xy1 @ map (\<lambda>n. ticks w1 (reads w1 + 2 * n + 1) - ticks w1 (reads w1 + 2 * n))
                              [0..<nat (j + 1 - (i + 1))]
      = snd xy @ map (\<lambda>n. ticks w (reads w + 2 * n + 1) - ticks w (reads w + 2 * n))
                              [0..<nat (j + 1 - i)]"
    unfolding nm upt_Suc_shift by (simp add: w1 o_def)
  have other: "out_path i \<noteq> out_path k" if "i + 1 \<le> k" for k
    using out_path_inject[of i k] i0 that by auto
  have files_i: "writable w (out_path i)
      \<Longrightarrow> files w' (out_path i) = Some (concat (map csv_line (s i)))"
    using fr other f1 by simp
  have written: "\<forall>k. i \<le> k \<and> k \<le> j \<and> writable w (out_path k)
                \<longrightarrow> files w' (out_path k) = Some (concat (map csv_line (s k)))"
  proof (intro allI impI)
    fix k assume k: "i \<le> k \<and> k \<le> j \<and> writable w (out_path k)"
    show "files w' (out_path k) = Some (concat (map csv_line (s k)))"
    proof (cases "k = i")
      case True then show ?thesis using files_i k by simp
    next
      case False then show ?thesis using wr k w1(3) by simp
    qed
  qed
  have frame: "\<forall>p. (\<forall>k. i \<le> k \<and> k \<le> j \<longrightarrow> p \<noteq> out_path k) \<longrightarrow> files w' p = files w p"
  proof (intro allI impI)
    fix p assume p: "\<forall>k. i \<le> k \<and> k \<le> j \<longrightarrow> p \<noteq> out_path k"
    then have "files w' p = files w1 p" using fr by simp
    moreover have "p \<noteq> out_path i" using p le by simp
    ultimately show "files w' p = files w p" using f1 by simp
  qed
  show ?case
    unfolding unfold loop xs ys using written frame w' w1 by simp
qed

section \<open>Boundary cases\<close>

lemma soldier_less_key: "soldier_less = (\<lambda>x y. tie x < tie y)"
  by (intro ext) (simp add: soldier_less_def)

lemma insertion_sort_Nil: "insertion_sort cmp [] = ([], 0)"
  by (simp add: insertion_sort_def insertion_outer.simps)

lemma insertion_sort_single: "insertion_sort cmp [x] = ([x], 0)"
  by (simp add: insertion_sort_def insertion_outer.simps)

lemma shaker_sort_Nil: "shaker_sort cmp [] = ([], 0)"
  by (simp add: shaker_sort_def shaker_loop.simps)

lemma shaker_sort_single: "shaker_sort cmp [x] = ([x], 0)"
  by (simp add: shaker_sort_def shaker_loop.simps shaker_forward.simps)

section \<open>What the harness returns when every round succeeds\<close>

lemma get_time_runs:
  assumes "\<forall>k. 1 \<le> k \<and> k \<le> j \<longrightarrow> fst (read_csv (in_path k) w) = Inr (d k)"
    and "\<forall>k. 1 \<le> k \<and> k \<le> j \<longrightarrow> sort_by_name std_sort algo (d k) = Inr (s k)"
    and "j < 2147483647"
  shows "\<exists>y w'. get_time std_sort show_double j algo w
             = (Inr (map (\<lambda>k. real (length (s k))) [1..j], y), w')
         \<and> length y = nat j
         \<and> (mono (ticks w) \<longrightarrow> (\<forall>t\<in>set y. 0 \<le> t))
         \<and> (\<forall>k. 1 \<le> k \<and> k \<le> j \<and> writable w (out_path k)
                \<longrightarrow> files w' (out_path k) = Some (concat (map csv_line (s k))))"
proof -
  let ?y = "map (\<lambda>n. ticks w (reads w + 2 * n + 1) - ticks w (reads w + 2 * n)) [0..<nat j]"
  have len0: "int (length (snd (([], []) :: real list \<times> real list))) = 1 - 1" by simp
  obtain w' where run: "get_time_loop std_sort show_double j algo 1 ([], []) w
           = (Inr (map (\<lambda>k. real (length (s k))) [1..j], ?y), w')"
    and wr: "\<forall>k. 1 \<le> k \<and> k \<le> j \<and> writable w (out_path k)
                \<longrightarrow> files w' (out_path k) = Some (concat (map csv_line (s k)))"
    using get_time_loop_runs[OF assms(1,2) len0 assms(3), of show_double] by auto
  have pos: "mono (ticks w) \<longrightarrow> (\<forall>t\<in>set ?y. 0 \<le> t)"
    by (auto simp: mono_def)
  show ?thesis
    unfolding get_time_def run using wr pos by (intro exI[of _ ?y] exI[of _ w']) simp
qed

lemma sort_by_name_sorts:
  assumes "algo \<in> {''insertion_sort'', ''shaker_sort'', ''merge_sort'', ''std::sort''}"
    and "algo = ''merge_sort'' \<longrightarrow> data \<noteq> []"
    and "sorted (map tie (std_sort soldier_less data))"
    and "mset (std_sort soldier_less data) = mset data"
  shows "\<exists>res. sort_by_name std_sort algo data = Inr res
           \<and> sorted (map tie res) \<and> mset res = mset data"
proof -
  consider "algo = ''insertion_sort''" | "algo = ''shaker_sort''" | "algo = ''merge_sort''"
    | "algo = ''std::sort''" using assms(1) by blast
  then show ?thesis
  proof cases
    case 1
    then show ?thesis
      unfolding soldier_less_key sort_by_name_def
      using insertion_sort_sorted[of tie data] insertion_sort_mset[of tie data] by simp
  next
    case 2
    then show ?thesis
      unfolding soldier_less_key sort_by_name_def
      using shaker_sort_sorted[of tie data] shaker_sort_mset[of tie data] by simp
  next
    case 3
    then have "data \<noteq> []" using assms(2) by simp
    from merge_sort_sorts[OF this, of tie] 3 show ?thesis
      unfolding soldier_less_key sort_by_name_def by auto
  next
    case 4
    then show ?thesis
      unfolding sort_by_name_def using assms(3,4) by simp
  qed
qed

lemma get_time_recognized:
  assumes "algo \<in> {''insertion_sort'', ''shaker_sort'', ''merge_sort'', ''std::sort''}"
    and "\<forall>k. 1 \<le> k \<and> k \<le> j \<longrightarrow> fst (read_csv (in_path k) w) = Inr (d k)"
    and "algo = ''merge_sort'' \<longrightarrow> (\<forall>k. 1 \<le> k \<and> k \<le> j \<longrightarrow> d k \<noteq> [])"
    and "\<forall>xs. sorted (map tie (std_sort soldier_less xs)) \<and> mset (std_sort soldier_less xs) = mset xs"
    and "mono (ticks w)"
    and "j < 2147483647"
  shows "\<exists>y w'. get_time std_sort show_double j algo w
             = (Inr (map (\<lambda>k. real (length (d k))) [1..j], y), w')
         \<and> length y = nat j \<and> (\<forall>t\<in>set y. 0 \<le> t)"
proof -
  have ex: "\<exists>res. sort_by_name std_sort algo (d k) = Inr res
           \<and> sorted (map tie res) \<and> mset res = mset (d k)" if "1 \<le> k \<and> k \<le> j" for k
    using that assms(3,4) by (intro sort_by_name_sorts[OF assms(1)]) auto
  define s where "s k = (SOME res. sort_by_name std_sort algo (d k) = Inr res
           \<and> sorted (map tie res) \<and> mset res = mset (d k))" for k
  have s: "sort_by_name std_sort algo (d k) = Inr (s k) \<and> mset (s k) = mset (d k)"
    if "1 \<le> k \<and> k \<le> j" for k
    using someI_ex[OF ex[OF that]] unfolding s_def by simp
  have len: "length (s k) = length (d k)" if "1 \<le> k \<and> k \<le> j" for k
    using s[OF that] by (metis size_mset)
  have sorts: "\<forall>k. 1 \<le> k \<and> k \<le> j \<longrightarrow> sort_by_name std_sort algo (d k) = Inr (s k)"
    using s by simp
  have "map (\<lambda>k. real (length (s k))) [1..j] = map (\<lambda>k. real (length (d k))) [1..j]"
    using len by (intro map_cong) auto
  with get_time_runs[OF assms(2) sorts assms(6), of show_double] assms(5) show ?thesis by auto
qed

section \<open>The claims about the sorting algorithms\<close>

text \<open>
  Claim C1: on every finite sequence of records each of the four algorithms leaves a
  sequence that is non-decreasing in the ordering of the records and is a permutation
  of the input. For insertion sort, shaker sort, merge sort on a sequence that is not
  empty, and a \<^verbatim>\<open>std::sort\<close> that keeps its contract, this is \<open>sort_by_name_sorts\<close>.
  On the empty sequence \<^verbatim>\<open>merge_sort\<close> leaves no sequence at all: the call does not
  return.
\<close>

theorem sort_by_name_merge_sort_empty: "sort_by_name std_sort ''merge_sort'' [] = Inl No_Return"
proof -
  have "merge_sort soldier_less [] = None" by (rule merge_sort_Nil)
  then show ?thesis by (simp add: sort_by_name_def)
qed

text \<open>
  Claim C2, as the code has it: when the heads of the two sub-ranges compare equal
  (neither precedes the other), \<open>merge\<close> takes the element of the right sub-range
  first, because the left head is taken only when \<^verbatim>\<open>comp(*i, *j)\<close> holds. So
  \<open>merge_sort\<close> is not stable: on a sequence that is not empty, the records of any
  one key come out in the reverse of the order in which they went in.
\<close>

theorem merge_tie_takes_right:
  "(\<not> soldier_less x y \<and> \<not> soldier_less y x
      \<longrightarrow> fst (merge soldier_less (x # l) (y # r)) = y # fst (merge soldier_less (x # l) r))
   \<and> (a \<noteq> []
      \<longrightarrow> (\<exists>res c. merge_sort soldier_less a = Some (res, c)
             \<and> filter (\<lambda>z. tie z = k) res = rev (filter (\<lambda>z. tie z = k) a)))"
proof (intro conjI impI)
  assume "\<not> soldier_less x y \<and> \<not> soldier_less y x"
  then show "fst (merge soldier_less (x # l) (y # r)) = y # fst (merge soldier_less (x # l) r)"
    by (simp add: merge_eq_merge_lists)
next
  assume "a \<noteq> []"
  from merge_sort_reverses[OF this, of tie]
  show "\<exists>res c. merge_sort soldier_less a = Some (res, c)
             \<and> filter (\<lambda>z. tie z = k) res = rev (filter (\<lambda>z. tie z = k) a)"
    unfolding soldier_less_key by blast
qed

text \<open>Two records that differ in the job only, which the key leaves out.\<close>

theorem merge_tie_takes_right_witness:
  "\<not> soldier_less \<lparr>full_name = ''A'', job = ''first'', unit = ''U'', salary = 1\<rparr>
        \<lparr>full_name = ''A'', job = ''second'', unit = ''U'', salary = 1\<rparr>
   \<and> \<not> soldier_less \<lparr>full_name = ''A'', job = ''second'', unit = ''U'', salary = 1\<rparr>
        \<lparr>full_name = ''A'', job = ''first'', unit = ''U'', salary = 1\<rparr>
   \<and> fst (merge soldier_less
        [\<lparr>full_name = ''A'', job = ''first'', unit = ''U'', salary = 1\<rparr>]
        [\<lparr>full_name = ''A'', job = ''second'', unit = ''U'', salary = 1\<rparr>])
      = [\<lparr>full_name = ''A'', job = ''second'', unit = ''U'', salary = 1\<rparr>,
         \<lparr>full_name = ''A'', job = ''first'', unit = ''U'', salary = 1\<rparr>]
   \<and> (\<exists>res c. merge_sort soldier_less
        [\<lparr>full_name = ''A'', job = ''first'', unit = ''U'', salary = 1\<rparr>,
         \<lparr>full_name = ''A'', job = ''second'', unit = ''U'', salary = 1\<rparr>]
        = Some (res, c)
      \<and> filter (\<lambda>z. tie z = (''U'', ''A'', 1)) res
        = [\<lparr>full_name = ''A'', job = ''second'', unit = ''U'', salary = 1\<rparr>,
           \<lparr>full_name = ''A'', job = ''first'', unit = ''U'', salary = 1\<rparr>])"
proof -
  let ?s1 = "\<lparr>full_name = ''A'', job = ''first'', unit = ''U'', salary = 1\<rparr>"
  let ?s2 = "\<lparr>full_name = ''A'', job = ''second'', unit = ''U'', salary = 1\<rparr>"
  have ab: "\<not> soldier_less ?s1 ?s2 \<and> \<not> soldier_less ?s2 ?s1"
    by (simp add: soldier_less_def tie_def)
  have ne: "[?s1, ?s2] \<noteq> []" by simp
  have c: "fst (merge soldier_less [?s1] []) = [?s1]"
    by (simp add: merge_def merge_loop.simps)
  have m: "fst (merge soldier_less [?s1] [?s2]) = [?s2, ?s1]"
    using merge_tie_takes_right[THEN conjunct1, rule_format, OF ab, of "[]" "[]"] c by simp
  have r: "\<exists>res c. merge_sort soldier_less [?s1, ?s2] = Some (res, c)
      \<and> filter (\<lambda>z. tie z = (''U'', ''A'', 1)) res = [?s2, ?s1]"
    using merge_tie_takes_right[THEN conjunct2, rule_format, OF ne, of "(''U'', ''A'', 1)"]
    by (simp add: tie_def)
  show ?thesis using ab m r by simp
qed

text \<open>
  The claim said that ties take the left element first and that merge sort is stable.
  Here the keys are equal, the merged range starts with the right element, and merge
  sort returns the two records in reverse order.
\<close>

theorem merge_stable_counterexample:
  "tie \<lparr>full_name = ''A'', job = ''first'', unit = ''U'', salary = 1\<rparr>
     = tie \<lparr>full_name = ''A'', job = ''second'', unit = ''U'', salary = 1\<rparr>
   \<and> hd (fst (merge soldier_less
        [\<lparr>full_name = ''A'', job = ''first'', unit = ''U'', salary = 1\<rparr>]
        [\<lparr>full_name = ''A'', job = ''second'', unit = ''U'', salary = 1\<rparr>]))
      = \<lparr>full_name = ''A'', job = ''second'', unit = ''U'', salary = 1\<rparr>
   \<and> merge_sort soldier_less
        [\<lparr>full_name = ''A'', job = ''first'', unit = ''U'', salary = 1\<rparr>,
         \<lparr>full_name = ''A'', job = ''second'', unit = ''U'', salary = 1\<rparr>]
      = Some ([\<lparr>full_name = ''A'', job = ''second'', unit = ''U'', salary = 1\<rparr>,
               \<lparr>full_name = ''A'', job = ''first'', unit = ''U'', salary = 1\<rparr>], 1)"
  by code_simp

text \<open>
  Claim C3: \<open>merge_sort\<close> terminates on every finite range, the empty one included.
  It does not: on the empty range the test \<^verbatim>\<open>first + 1 == last\<close> fails, \<^verbatim>\<open>mid\<close> is 0
  and the first recursive call is again on the empty range. (On a range that is not
  empty it does return: \<open>merge_sort_returns\<close>.)
\<close>

theorem merge_sort_empty_never_returns: "merge_sort cmp [] = None"
proof (cases "merge_sort cmp []")
  case None
  then show ?thesis .
next
  case (Some y)
  from merge_sort_Nil_aux[OF this] show ?thesis by simp
qed

text \<open>
  Claim C4: on the empty and on a one-element sequence every algorithm returns the
  sequence unchanged with no comparator call. This holds for insertion sort and shaker
  sort on both, and for merge sort on one element; on the empty sequence merge sort
  does not return.
\<close>

theorem boundary_sequences:
  "insertion_sort cmp [] = ([], 0) \<and> insertion_sort cmp [x] = ([x], 0)
   \<and> shaker_sort cmp [] = ([], 0) \<and> shaker_sort cmp [x] = ([x], 0)
   \<and> merge_sort cmp [x] = Some ([x], 0) \<and> merge_sort cmp [] = None"
  by (simp add: insertion_sort_Nil insertion_sort_single shaker_sort_Nil shaker_sort_single
      merge_sort_one merge_sort_Nil)

text \<open>
  Claim C5: insertion sort and shaker sort are stable under the ordering of the records:
  for every key tuple \<open>k\<close>, the records with that key come out in the order in which
  they went in.
\<close>

theorem insertion_shaker_stable:
  "filter (\<lambda>x. tie x = k) (fst (insertion_sort soldier_less a)) = filter (\<lambda>x. tie x = k) a
   \<and> filter (\<lambda>x. tie x = k) (fst (shaker_sort soldier_less a)) = filter (\<lambda>x. tie x = k) a"
  unfolding soldier_less_key
  using insertion_sort_stable[of tie k a] shaker_sort_stable[of tie k a] by simp

theorem insertion_shaker_stable_witness:
  "filter (\<lambda>x. tie x = (''U'', ''B'', 1))
     (fst (insertion_sort soldier_less
        [\<lparr>full_name = ''B'', job = ''x'', unit = ''U'', salary = 1\<rparr>,
         \<lparr>full_name = ''A'', job = ''y'', unit = ''U'', salary = 2\<rparr>,
         \<lparr>full_name = ''B'', job = ''z'', unit = ''U'', salary = 1\<rparr>]))
   = [\<lparr>full_name = ''B'', job = ''x'', unit = ''U'', salary = 1\<rparr>,
      \<lparr>full_name = ''B'', job = ''z'', unit = ''U'', salary = 1\<rparr>]
   \<and> filter (\<lambda>x. tie x = (''U'', ''B'', 1))
     (fst (shaker_sort soldier_less
        [\<lparr>full_name = ''B'', job = ''x'', unit = ''U'', salary = 1\<rparr>,
         \<lparr>full_name = ''A'', job = ''y'', unit = ''U'', salary = 2\<rparr>,
         \<lparr>full_name = ''B'', job = ''z'', unit = ''U'', salary = 1\<rparr>]))
   = [\<lparr>full_name = ''B'', job = ''x'', unit = ''U'', salary = 1\<rparr>,
      \<lparr>full_name = ''B'', job = ''z'', unit = ''U'', salary = 1\<rparr>]"
  using insertion_shaker_stable[of "(''U'', ''B'', 1)"
      "[\<lparr>full_name = ''B'', job = ''x'', unit = ''U'', salary = 1\<rparr>,
        \<lparr>full_name = ''A'', job = ''y'', unit = ''U'', salary = 2\<rparr>,
        \<lparr>full_name = ''B'', job = ''z'', unit = ''U'', salary = 1\<rparr>]"]
  by (simp add: tie_def)

section \<open>The claims about datasets and the harness\<close>

text \<open>
  Claim C6, as the code has it. When a dataset cannot be opened, \<open>read_csv\<close> writes one
  fixed line to \<^verbatim>\<open>std::cerr\<close>, which names neither the file nor the index, and returns
  the empty collection; this is so whatever the selector. In round \<open>i\<close> (with the
  \<open>i - 1\<close> samples of the rounds before), for every selector but \<^verbatim>\<open>merge_sort\<close>
  (and a \<^verbatim>\<open>std::sort\<close> that returns the empty sequence unchanged), the round does not
  fail: it goes on with the empty collection and appends the sample of size 0; where
  the output path can be opened it writes an empty output file, and the line on
  \<^verbatim>\<open>std::cerr\<close> is the only trace.
\<close>

theorem missing_dataset_continues:
  "(files w filename = None
      \<longrightarrow> read_csv filename w
          = (Inr [], w\<lparr>cerr := cerr w @ ''read_csv: Couldn't open file'' @ [newline]\<rparr>))
   \<and> (files w (in_path i) = None \<and> algo \<noteq> ''merge_sort'' \<and> std_sort soldier_less [] = []
      \<and> int (length (snd xy)) = i - 1
      \<longrightarrow> (\<exists>w'. get_time_step std_sort show_double algo i xy w
                 = (Inr (fst xy @ [0], snd xy @ [ticks w (reads w + 1) - ticks w (reads w)]), w')
               \<and> (writable w (out_path i)
                    \<longrightarrow> cerr w' = cerr w @ ''read_csv: Couldn't open file'' @ [newline]
                        \<and> files w' (out_path i) = Some [])))"
proof (intro conjI impI)
  assume "files w filename = None"
  then show "read_csv filename w
          = (Inr [], w\<lparr>cerr := cerr w @ ''read_csv: Couldn't open file'' @ [newline]\<rparr>)"
    by (simp add: read_csv_def)
next
  assume h: "files w (in_path i) = None \<and> algo \<noteq> ''merge_sort'' \<and> std_sort soldier_less [] = []
      \<and> int (length (snd xy)) = i - 1"
  have rd: "read_csv (in_path i) w
      = (Inr [], w\<lparr>cerr := cerr w @ ''read_csv: Couldn't open file'' @ [newline]\<rparr>)"
    using h by (simp add: read_csv_def)
  have st: "sort_by_name std_sort algo [] = Inr []"
    using h by (simp add: sort_by_name_def insertion_sort_Nil shaker_sort_Nil)
  have n: "nat (i - 1) = length (snd xy)" using h by linarith
  have at: "vector_at (snd xy @ [t]) (i - 1) = Inr t" for t :: real
    using h by (simp add: vector_at_def n)
  show "\<exists>w'. get_time_step std_sort show_double algo i xy w
                 = (Inr (fst xy @ [0], snd xy @ [ticks w (reads w + 1) - ticks w (reads w)]), w')
               \<and> (writable w (out_path i)
                    \<longrightarrow> cerr w' = cerr w @ ''read_csv: Couldn't open file'' @ [newline]
                        \<and> files w' (out_path i) = Some [])"
    unfolding get_time_step_def
    by (simp add: rd st now_def at Let_def write_csv_def)
qed

theorem missing_dataset_continues_witness:
  "read_csv (in_path 1) empty_world
     = (Inr [], empty_world\<lparr>cerr := ''read_csv: Couldn't open file'' @ [newline]\<rparr>)
   \<and> (\<exists>w'. get_time_step (\<lambda>cmp a. a) (\<lambda>t. []) ''shaker_sort'' 1 ([], []) empty_world
           = (Inr ([0], [1]), w')
         \<and> cerr w' = ''read_csv: Couldn't open file'' @ [newline]
         \<and> files w' (out_path 1) = Some [])"
proof -
  have H1: "files empty_world (in_path 1) = None" by (simp add: empty_world_def)
  have H2: "files empty_world (in_path 1) = None \<and> ''shaker_sort'' \<noteq> ''merge_sort''
      \<and> (\<lambda>cmp a. a) soldier_less [] = ([] :: Soldier list)
      \<and> int (length (snd (([], []) :: real list \<times> real list))) = 1 - 1"
    using H1 by simp
  have wr: "writable empty_world (out_path 1)" by (simp add: empty_world_def)
  have r1: "read_csv (in_path 1) empty_world
     = (Inr [], empty_world\<lparr>cerr := ''read_csv: Couldn't open file'' @ [newline]\<rparr>)"
    using missing_dataset_continues[THEN conjunct1, rule_format, OF H1]
    by (simp add: empty_world_def)
  have r2: "\<exists>w'. get_time_step (\<lambda>cmp a. a) (\<lambda>t. []) ''shaker_sort'' 1 ([], []) empty_world
           = (Inr ([0], [1]), w')
         \<and> cerr w' = ''read_csv: Couldn't open file'' @ [newline]
         \<and> files w' (out_path 1) = Some []"
    using missing_dataset_continues[where std_sort = "\<lambda>cmp a. a" and show_double = "\<lambda>t. []"
      and algo = "''shaker_sort''" and i = 1 and xy = "([], [])" and w = empty_world,
      THEN conjunct2, rule_format, OF H2] wr
    by (simp add: empty_world_def)
  show ?thesis using r1 r2 by simp
qed

text \<open>
  The claim said that a missing dataset surfaces as a failure for its index instead of
  a run on an empty collection. With no file at all, the harness returns the same
  series and prints the same on \<^verbatim>\<open>std::cout\<close> as with an empty \<^verbatim>\<open>dataset_1.csv\<close>,
  having written an empty output file; the line on \<^verbatim>\<open>std::cerr\<close> is all there is.
\<close>

theorem missing_dataset_counterexample:
  "fst (get_time (\<lambda>cmp a. a) (\<lambda>t. []) 1 ''insertion_sort'' empty_world) = Inr ([0], [1])
   \<and> fst (get_time (\<lambda>cmp a. a) (\<lambda>t. []) 1 ''insertion_sort''
            (empty_world\<lparr>files := [in_path 1 \<mapsto> []]\<rparr>)) = Inr ([0], [1])
   \<and> cerr (snd (get_time (\<lambda>cmp a. a) (\<lambda>t. []) 1 ''insertion_sort'' empty_world))
       = ''read_csv: Couldn't open file'' @ [newline]
   \<and> files (snd (get_time (\<lambda>cmp a. a) (\<lambda>t. []) 1 ''insertion_sort'' empty_world)) (out_path 1)
       = Some []
   \<and> cout (snd (get_time (\<lambda>cmp a. a) (\<lambda>t. []) 1 ''insertion_sort'' empty_world))
       = cout (snd (get_time (\<lambda>cmp a. a) (\<lambda>t. []) 1 ''insertion_sort''
            (empty_world\<lparr>files := [in_path 1 \<mapsto> []]\<rparr>)))"
  by (simp add: get_time_def get_time_loop.simps get_time_step_def read_csv_def getlines.simps
      getline_def now_def sort_by_name_def insertion_sort_Nil empty_world_def write_csv_def
      vector_at_def)

text \<open>
  Claim C7: the sorted collection of a run goes to a destination of its own algorithm,
  keyed by the index of the dataset. The file name is keyed by the index, but its
  directory is \<^verbatim>\<open>data/out/insertion/\<close> for every algorithm: a run of shaker sort
  writes there, and nothing under \<^verbatim>\<open>data/out/shaker/\<close>.
\<close>

theorem output_path_is_insertion:
  "files (snd (get_time std_sort show_double 1 ''shaker_sort''
       (empty_world\<lparr>files := [in_path 1 \<mapsto> ''n,j,u,5'' @ [newline]]\<rparr>)))
     ''data/out/insertion/dataset_1.csv'' = Some (''n,j,u,5'' @ [newline])
   \<and> files (snd (get_time std_sort show_double 1 ''shaker_sort''
       (empty_world\<lparr>files := [in_path 1 \<mapsto> ''n,j,u,5'' @ [newline]]\<rparr>)))
     ''data/out/shaker/dataset_1.csv'' = None"
  by (simp add: get_time_def get_time_loop.simps get_time_step_def read_csv_def getlines.simps
      getline_def now_def sort_by_name_def shaker_sort_single empty_world_def write_csv_def
      vector_at_def split_def stoi_def isspace_def isdigit_def digits_value_def digit_value_def
      in_path_def out_path_def to_string_def digits.simps csv_line_def newline_def)










text \<open>
  Claim C9: for every count and every recognised algorithm name \<open>get_time\<close> returns
  two series of that length, sizes and elapsed times, no time negative. When the count
  is below \<open>2\<^sup>3\<^sup>1 - 1\<close>, every dataset loads, the clock is monotonic, \<^verbatim>\<open>std::sort\<close>
  keeps its contract and, for \<^verbatim>\<open>merge_sort\<close>, no dataset is empty, this is
  \<open>get_time_recognized\<close>. With \<^verbatim>\<open>merge_sort\<close> and an empty dataset \<open>get_time\<close> returns
  nothing.
\<close>

theorem get_time_merge_sort_empty_dataset:
  "fst (get_time std_sort show_double 1 ''merge_sort'' (empty_world\<lparr>files := [in_path 1 \<mapsto> []]\<rparr>))
     = Inl No_Return"
  by (simp add: get_time_def get_time_loop.simps get_time_step_def read_csv_def getlines.simps
      getline_def now_def sort_by_name_def merge_sort_Nil empty_world_def)

text \<open>
  Claim C10: with a selector that is none of the four names, datasets that load, and a
  count below \<open>2\<^sup>3\<^sup>1 - 1\<close> (the greatest \<^verbatim>\<open>int\<close>, where the loop counter would
  overflow), \<open>get_time\<close> raises nothing and sorts nothing; it returns the two series in
  full length, the sizes being those of the loaded collections, and it writes every
  collection as loaded to its output file.
\<close>

theorem unknown_algo_runs_unsorted:
  assumes "algo \<notin> {''insertion_sort'', ''shaker_sort'', ''merge_sort'', ''std::sort''}"
    and "\<forall>k. 1 \<le> k \<and> k \<le> j \<longrightarrow> fst (read_csv (in_path k) w) = Inr (d k)"
    and "j < 2147483647"
  shows "\<exists>y w'. get_time std_sort show_double j algo w
             = (Inr (map (\<lambda>k. real (length (d k))) [1..j], y), w')
         \<and> length y = nat j
         \<and> (\<forall>k. 1 \<le> k \<and> k \<le> j \<and> writable w (out_path k)
                \<longrightarrow> files w' (out_path k) = Some (concat (map csv_line (d k))))
         \<and> (\<forall>k. 1 \<le> k \<and> k \<le> j \<longrightarrow> sort_by_name std_sort algo (d k) = Inr (d k))"
proof -
  have no_sort: "sort_by_name std_sort algo data = Inr data" for data
    using assms(1) by (simp add: sort_by_name_def)
  then have sorts: "\<forall>k. 1 \<le> k \<and> k \<le> j \<longrightarrow> sort_by_name std_sort algo (d k) = Inr (d k)"
    by simp
  from get_time_runs[OF assms(2) sorts assms(3), of show_double] sorts show ?thesis by blast
qed

theorem unknown_algo_runs_unsorted_witness:
  "\<exists>y w'. get_time (\<lambda>cmp a. a) (\<lambda>t. []) 1 ''bubble_sort''
       (empty_world\<lparr>files := [in_path 1 \<mapsto> ''n,j,u,5'' @ [newline] @ ''m,k,a,6'' @ [newline]]\<rparr>)
     = (Inr ([2], y), w')
     \<and> length y = 1
     \<and> files w' (out_path 1) = Some (''n,j,u,5'' @ [newline] @ ''m,k,a,6'' @ [newline])"
proof -
  let ?w = "empty_world\<lparr>files := [in_path 1 \<mapsto> ''n,j,u,5'' @ [newline] @ ''m,k,a,6'' @ [newline]]\<rparr>"
  let ?d = "\<lambda>k::int. [\<lparr>full_name = ''n'', job = ''j'', unit = ''u'', salary = 5\<rparr>,
                        \<lparr>full_name = ''m'', job = ''k'', unit = ''a'', salary = 6\<rparr>]"
  have H1: "''bubble_sort'' \<notin> {''insertion_sort'', ''shaker_sort'', ''merge_sort'', ''std::sort''}"
    by simp
  have ld: "fst (read_csv (in_path 1) ?w) = Inr (?d 1)"
    by (simp add: read_csv_def empty_world_def getlines.simps getline_def newline_def split_def
        stoi_def isspace_def isdigit_def digits_value_def digit_value_def)
  have H2: "\<forall>k. 1 \<le> k \<and> k \<le> 1 \<longrightarrow> fst (read_csv (in_path k) ?w) = Inr (?d k)"
  proof (intro allI impI)
    fix k :: int assume "1 \<le> k \<and> k \<le> 1"
    then have "k = 1" by simp
    then show "fst (read_csv (in_path k) ?w) = Inr (?d k)" using ld by simp
  qed
  have H3: "(1::int) < 2147483647" by simp
  have wr: "writable ?w (out_path 1)" by (simp add: empty_world_def)
  have csv: "concat (map csv_line (?d 1)) = ''n,j,u,5'' @ [newline] @ ''m,k,a,6'' @ [newline]"
    by (simp add: csv_line_def to_string_def digits.simps)
  from unknown_algo_runs_unsorted[OF H1 H2 H3, of "\<lambda>cmp a. a" "\<lambda>t. []"]
  obtain y w' where run: "get_time (\<lambda>cmp a. a) (\<lambda>t. []) 1 ''bubble_sort'' ?w
             = (Inr (map (\<lambda>k. real (length (?d k))) [1..1], y), w')"
    and len: "length y = nat 1"
    and files: "\<forall>k. 1 \<le> k \<and> k \<le> 1 \<and> writable ?w (out_path k)
                \<longrightarrow> files w' (out_path k) = Some (concat (map csv_line (?d k)))"
    by blast
  have "files w' (out_path 1) = Some (concat (map csv_line (?d 1)))"
    using files wr by simp
  then show ?thesis using run len csv by (intro exI[of _ y] exI[of _ w']) simp
qed


end
